theory Spec2Isabelle
  imports Complex_Main
begin

section \<open>Python values, exceptions and iterables\<close>

text \<open>
  The codec of \<^verbatim>\<open>protarrow\<close> moves data between protobuf messages and Arrow arrays.
  Python is dynamically typed, so one datatype holds every Python value the codec
  touches: \<^verbatim>\<open>None\<close>, the scalars, \<^verbatim>\<open>datetime.date\<close>, messages and the containers of
  repeated and map fields. A message is the list of its fields in the order of its
  descriptor; the slot of a singular message field is \<open>Submessage present m\<close>, the
  presence bit that \<^verbatim>\<open>HasField\<close> reads together with the (default, when absent)
  sub-message that attribute access returns. \<open>PyOther\<close> stands for the Python lists and
  dicts that \<^verbatim>\<open>as_py()\<close> returns for an element of a nested array. Floating point
  values are carried as reals: the codec only copies them.

  A leading underscore of a source name is dropped (\<^verbatim>\<open>_get_offsets\<close> is \<open>get_offsets\<close>).
\<close>

datatype pvalue =
    PyNone
  | PyInt int
  | PyBool bool
  | PyStr string
  | PyBytes string
  | PyFloat real
  | PyDate int int int
  | PyOther
  | Message "(string \<times> pvalue) list"
  | Submessage bool pvalue
  | RepeatedContainer "pvalue list"
  | MapContainer "(pvalue \<times> pvalue) list"

datatype error =
    TypeError | ValueError | KeyError | AttributeError | IndexError
  | RuntimeError | AssertionError | ArrowInvalid

text \<open>A raised exception is \<open>Inl\<close>; \<open>and_then\<close> sequences two steps.\<close>

definition and_then :: "error + 'a \<Rightarrow> ('a \<Rightarrow> error + 'b) \<Rightarrow> error + 'b" where
  "and_then m f = (case m of Inl e \<Rightarrow> Inl e | Inr x \<Rightarrow> f x)"

lemma and_then_cong [fundef_cong]:
  "m = m' \<Longrightarrow> (\<And>x. m' = Inr x \<Longrightarrow> f x = f' x) \<Longrightarrow> and_then m f = and_then m' f'"
  by (cases m') (simp_all add: and_then_def)

lemma and_then_simps [simp]:
  "and_then (Inl e) f = Inl e"
  "and_then (Inr x) f = f x"
  by (simp_all add: and_then_def)

fun traverse :: "('a \<Rightarrow> error + 'b) \<Rightarrow> 'a list \<Rightarrow> error + 'b list" where
  "traverse f [] = Inr []"
| "traverse f (x # xs) =
     and_then (f x) (\<lambda>y. and_then (traverse f xs) (\<lambda>ys. Inr (y # ys)))"

text \<open>
  An iterable is what iterating it gives: the list of its items, or the exception
  raised on the way. The iterables of the source are lazy and are iterated again by each
  loop over them; they read messages that the loop does not change, so every iteration
  gives the same outcome.
\<close>

type_synonym 'a iterable = "error + 'a list"

definition py_len :: "pvalue \<Rightarrow> error + int" where
  "py_len v = (case v of
      RepeatedContainer xs \<Rightarrow> Inr (int (length xs))
    | MapContainer kvs \<Rightarrow> Inr (int (length kvs))
    | PyStr s \<Rightarrow> Inr (int (length s))
    | PyBytes s \<Rightarrow> Inr (int (length s))
    | _ \<Rightarrow> Inl TypeError)"

definition py_iter :: "pvalue \<Rightarrow> pvalue iterable" where
  "py_iter v = (case v of
      RepeatedContainer xs \<Rightarrow> Inr xs
    | MapContainer kvs \<Rightarrow> Inr (map fst kvs)
    | _ \<Rightarrow> Inl TypeError)"

definition keys :: "pvalue \<Rightarrow> pvalue iterable" where
  "keys v = (case v of MapContainer kvs \<Rightarrow> Inr (map fst kvs) | _ \<Rightarrow> Inl AttributeError)"

definition values_of :: "pvalue \<Rightarrow> pvalue iterable" where
  "values_of v = (case v of MapContainer kvs \<Rightarrow> Inr (map snd kvs) | _ \<Rightarrow> Inl AttributeError)"

section \<open>Descriptors\<close>

datatype proto_type =
    TYPE_DOUBLE | TYPE_FLOAT | TYPE_INT64 | TYPE_UINT64 | TYPE_INT32 | TYPE_FIXED64
  | TYPE_FIXED32 | TYPE_BOOL | TYPE_STRING | TYPE_GROUP | TYPE_MESSAGE | TYPE_BYTES
  | TYPE_UINT32 | TYPE_ENUM | TYPE_SFIXED32 | TYPE_SFIXED64 | TYPE_SINT32 | TYPE_SINT64

datatype proto_label = LABEL_OPTIONAL | LABEL_REQUIRED | LABEL_REPEATED

text \<open>An enum descriptor is the list of its values, each a name and a number.\<close>

type_synonym enum_descriptor = "(string \<times> int) list"

datatype descriptor =
  Descriptor (full_name: string) (fields: "field_descriptor list") (map_entry: bool)
and field_descriptor =
  FieldDescriptor (name: string) (ftype: proto_type) (label: proto_label)
    (message_type: "descriptor option") (field_enum_type: "enum_descriptor option")

definition fields_by_name :: "descriptor \<Rightarrow> string \<Rightarrow> error + field_descriptor" where
  "fields_by_name d n =
     (case find (\<lambda>f. name f = n) (fields d) of None \<Rightarrow> Inl KeyError | Some f \<Rightarrow> Inr f)"

definition values_by_number :: "enum_descriptor \<Rightarrow> int \<Rightarrow> string option" where
  "values_by_number e = map_of (map (\<lambda>(nm, num). (num, nm)) e)"

definition values_by_name :: "enum_descriptor \<Rightarrow> string \<Rightarrow> int option" where
  "values_by_name e = map_of e"

text \<open>
  \<^verbatim>\<open>field.default_value\<close> of a singular field that is not a message: zero, false, the
  empty string, or the number of the enum's first value.
\<close>

definition default_value :: "field_descriptor \<Rightarrow> pvalue" where
  "default_value f =
     (if ftype f \<in> {TYPE_DOUBLE, TYPE_FLOAT} then PyFloat 0
      else if ftype f = TYPE_BOOL then PyBool False
      else if ftype f = TYPE_STRING then PyStr []
      else if ftype f = TYPE_BYTES then PyBytes []
      else if ftype f = TYPE_ENUM then
        (case field_enum_type f of Some ((nm, num) # vs) \<Rightarrow> PyInt num | _ \<Rightarrow> PyInt 0)
      else if ftype f \<in> {TYPE_MESSAGE, TYPE_GROUP} then PyNone
      else PyInt 0)"

subsection \<open>The well-known descriptors\<close>

text \<open>
  The source keys its tables by the descriptors of the protobuf runtime's well-known
  types. A descriptor pool holds one descriptor for a full name, so the identity the
  Python dictionaries compare is equality here.
\<close>

definition scalar_field :: "string \<Rightarrow> proto_type \<Rightarrow> field_descriptor" where
  "scalar_field n t = FieldDescriptor n t LABEL_OPTIONAL None None"

definition Date_DESCRIPTOR :: descriptor where
  "Date_DESCRIPTOR = Descriptor ''google.type.Date''
     [scalar_field ''year'' TYPE_INT32, scalar_field ''month'' TYPE_INT32,
      scalar_field ''day'' TYPE_INT32] False"

definition Timestamp_DESCRIPTOR :: descriptor where
  "Timestamp_DESCRIPTOR = Descriptor ''google.protobuf.Timestamp''
     [scalar_field ''seconds'' TYPE_INT64, scalar_field ''nanos'' TYPE_INT32] False"

definition TimeOfDay_DESCRIPTOR :: descriptor where
  "TimeOfDay_DESCRIPTOR = Descriptor ''google.type.TimeOfDay''
     [scalar_field ''hours'' TYPE_INT32, scalar_field ''minutes'' TYPE_INT32,
      scalar_field ''seconds'' TYPE_INT32, scalar_field ''nanos'' TYPE_INT32] False"

definition wrapper_descriptor :: "string \<Rightarrow> proto_type \<Rightarrow> descriptor" where
  "wrapper_descriptor n t = Descriptor n [scalar_field ''value'' t] False"

definition BoolValue_DESCRIPTOR :: descriptor where
  "BoolValue_DESCRIPTOR = wrapper_descriptor ''google.protobuf.BoolValue'' TYPE_BOOL"

definition BytesValue_DESCRIPTOR :: descriptor where
  "BytesValue_DESCRIPTOR = wrapper_descriptor ''google.protobuf.BytesValue'' TYPE_BYTES"

definition DoubleValue_DESCRIPTOR :: descriptor where
  "DoubleValue_DESCRIPTOR = wrapper_descriptor ''google.protobuf.DoubleValue'' TYPE_DOUBLE"

definition FloatValue_DESCRIPTOR :: descriptor where
  "FloatValue_DESCRIPTOR = wrapper_descriptor ''google.protobuf.FloatValue'' TYPE_FLOAT"

definition Int32Value_DESCRIPTOR :: descriptor where
  "Int32Value_DESCRIPTOR = wrapper_descriptor ''google.protobuf.Int32Value'' TYPE_INT32"

definition Int64Value_DESCRIPTOR :: descriptor where
  "Int64Value_DESCRIPTOR = wrapper_descriptor ''google.protobuf.Int64Value'' TYPE_INT64"

definition StringValue_DESCRIPTOR :: descriptor where
  "StringValue_DESCRIPTOR = wrapper_descriptor ''google.protobuf.StringValue'' TYPE_STRING"

definition UInt32Value_DESCRIPTOR :: descriptor where
  "UInt32Value_DESCRIPTOR = wrapper_descriptor ''google.protobuf.UInt32Value'' TYPE_UINT32"

definition UInt64Value_DESCRIPTOR :: descriptor where
  "UInt64Value_DESCRIPTOR = wrapper_descriptor ''google.protobuf.UInt64Value'' TYPE_UINT64"

section \<open>Messages\<close>

text \<open>
  What the protobuf runtime gives the codec: a default instance of a message type,
  attribute access, \<^verbatim>\<open>HasField\<close>, and the constructors and conversions of the
  well-known types. A field that repeats is a map container when its message type is a
  map entry and a repeated container otherwise.
\<close>

fun concrete_class :: "descriptor \<Rightarrow> pvalue"
and new_slot :: "field_descriptor \<Rightarrow> pvalue" where
  "concrete_class (Descriptor n fs me) = Message (map (\<lambda>f. (name f, new_slot f)) fs)"
| "new_slot (FieldDescriptor n t l mt et) =
     (if l = LABEL_REPEATED then
        (case mt of
           Some (Descriptor dn dfs dme) \<Rightarrow>
             if dme then MapContainer [] else RepeatedContainer []
         | None \<Rightarrow> RepeatedContainer [])
      else
        (case mt of
           Some d \<Rightarrow> Submessage False (concrete_class d)
         | None \<Rightarrow> default_value (FieldDescriptor n t l mt et)))"

definition getattr :: "pvalue \<Rightarrow> string \<Rightarrow> error + pvalue" where
  "getattr m n = (case m of
      Message fs \<Rightarrow>
        (case map_of fs n of
           None \<Rightarrow> Inl AttributeError
         | Some (Submessage p v) \<Rightarrow> Inr v
         | Some v \<Rightarrow> Inr v)
    | _ \<Rightarrow> Inl AttributeError)"

definition HasField :: "pvalue \<Rightarrow> string \<Rightarrow> error + bool" where
  "HasField m n = (case m of
      Message fs \<Rightarrow>
        (case map_of fs n of
           Some (Submessage p v) \<Rightarrow> Inr p
         | _ \<Rightarrow> Inl ValueError)
    | _ \<Rightarrow> Inl AttributeError)"

definition get_int :: "pvalue \<Rightarrow> string \<Rightarrow> error + int" where
  "get_int m n = and_then (getattr m n) (\<lambda>v. case v of PyInt i \<Rightarrow> Inr i | _ \<Rightarrow> Inl TypeError)"

definition Timestamp :: "int \<Rightarrow> int \<Rightarrow> pvalue" where
  "Timestamp s n = Message [(''seconds'', PyInt s), (''nanos'', PyInt n)]"

definition Date :: "int \<Rightarrow> int \<Rightarrow> int \<Rightarrow> pvalue" where
  "Date y m d = Message [(''year'', PyInt y), (''month'', PyInt m), (''day'', PyInt d)]"

definition TimeOfDay :: "int \<Rightarrow> int \<Rightarrow> int \<Rightarrow> int \<Rightarrow> pvalue" where
  "TimeOfDay h m s n = Message
     [(''hours'', PyInt h), (''minutes'', PyInt m), (''seconds'', PyInt s), (''nanos'', PyInt n)]"

text \<open>\<^verbatim>\<open>Timestamp.ToNanoseconds\<close> and \<^verbatim>\<open>Timestamp.FromNanoseconds\<close> of the runtime.\<close>

definition ToNanoseconds :: "pvalue \<Rightarrow> error + int" where
  "ToNanoseconds x =
     and_then (get_int x ''seconds'') (\<lambda>s.
     and_then (get_int x ''nanos'') (\<lambda>n. Inr (s * 1000000000 + n)))"

definition FromNanoseconds :: "int \<Rightarrow> pvalue" where
  "FromNanoseconds nanos = Timestamp (nanos div 1000000000) (nanos mod 1000000000)"

text \<open>
  \<^verbatim>\<open>datetime.date(year, month, day)\<close> raises \<^verbatim>\<open>ValueError\<close> unless the date exists in the
  proleptic Gregorian calendar, years 1 to 9999.
\<close>

definition is_leap :: "int \<Rightarrow> bool" where
  "is_leap y = (y mod 4 = 0 \<and> (y mod 100 \<noteq> 0 \<or> y mod 400 = 0))"

definition days_in_month :: "int \<Rightarrow> int \<Rightarrow> int" where
  "days_in_month y m =
     (if m = 2 then (if is_leap y then 29 else 28)
      else if m \<in> {4, 6, 9, 11} then 30 else 31)"

definition datetime_date :: "int \<Rightarrow> int \<Rightarrow> int \<Rightarrow> error + pvalue" where
  "datetime_date y m d =
     (if 1 \<le> y \<and> y \<le> 9999 \<and> 1 \<le> m \<and> m \<le> 12 \<and> 1 \<le> d \<and> d \<le> days_in_month y m
      then Inr (PyDate y m d) else Inl ValueError)"

section \<open>Arrow types and arrays\<close>

text \<open>
  What the codec uses of \<^verbatim>\<open>pyarrow\<close>: data types, fields, arrays with their validity,
  offsets and children, and record batches. An element of a primitive array is its
  stored value, \<open>PyNone\<close> when it is null: an integer for the integer, timestamp and
  time types, a \<open>PyDate\<close> for \<^verbatim>\<open>date32\<close>, the value named for a dictionary type.
\<close>

datatype pa_unit = Unit_s | Unit_ms | Unit_us | Unit_ns

datatype pa_type =
    pa_bool | pa_int32 | pa_int64 | pa_uint32 | pa_uint64 | pa_float32 | pa_float64
  | pa_string | pa_binary | pa_date32
  | pa_timestamp pa_unit string
  | pa_time64 pa_unit
  | pa_dictionary pa_type pa_type
  | pa_list pa_field
  | pa_map pa_type pa_type
  | pa_struct "pa_field list"
and pa_field =
  pa_field (field_name: string) (field_type: pa_type) (nullable: bool)

datatype array =
    Array pa_type "pvalue list"
  | ListArray pa_type "int list" "bool list" array
  | MapArray "int list" "bool list" array array
  | StructArray "pa_field list" "array list" "bool list"

fun array_type :: "array \<Rightarrow> pa_type" where
  "array_type (Array t vs) = t"
| "array_type (ListArray t os valid vs) = t"
| "array_type (MapArray os valid ks vs) = pa_map (array_type ks) (array_type vs)"
| "array_type (StructArray fs cs valid) = pa_struct fs"

fun array_len :: "array \<Rightarrow> nat" where
  "array_len (Array t vs) = length vs"
| "array_len (ListArray t os valid vs) = length os - 1"
| "array_len (MapArray os valid ks vs) = length os - 1"
| "array_len (StructArray fs cs valid) = length valid"

text \<open>\<^verbatim>\<open>array.is_valid()\<close>: the validity of each element.\<close>

fun is_valid :: "array \<Rightarrow> bool list" where
  "is_valid (Array t vs) = map (\<lambda>v. v \<noteq> PyNone) vs"
| "is_valid (ListArray t os valid vs) = valid"
| "is_valid (MapArray os valid ks vs) = valid"
| "is_valid (StructArray fs cs valid) = valid"

text \<open>
  Iterating an array gives its scalars, each with the array's type. The element of a
  nested array is \<open>PyOther\<close> (its \<^verbatim>\<open>as_py()\<close> is a list or a dict) or \<open>PyNone\<close>.
\<close>

type_synonym scalar = "pa_type \<times> pvalue"

definition scalars :: "array \<Rightarrow> scalar list" where
  "scalars a = (case a of
      Array t vs \<Rightarrow> map (Pair t) vs
    | _ \<Rightarrow> map (\<lambda>b. (array_type a, if b then PyOther else PyNone)) (is_valid a))"

definition scalar_is_valid :: "scalar \<Rightarrow> bool" where
  "scalar_is_valid sc = (snd sc \<noteq> PyNone)"

text \<open>
  \<^verbatim>\<open>scalar.as_py()\<close>: the stored value, but a \<^verbatim>\<open>datetime\<close> object (\<open>PyOther\<close>) for a
  valid timestamp or time element.
\<close>

definition as_py :: "scalar \<Rightarrow> pvalue" where
  "as_py sc = (case fst sc of
      pa_timestamp u tz \<Rightarrow> (if snd sc = PyNone then PyNone else PyOther)
    | pa_time64 u \<Rightarrow> (if snd sc = PyNone then PyNone else PyOther)
    | _ \<Rightarrow> snd sc)"

definition int_fits :: "nat \<Rightarrow> bool \<Rightarrow> pvalue \<Rightarrow> bool" where
  "int_fits w is_signed v = (case v of
      PyInt i \<Rightarrow> (if is_signed then - (2 ^ (w - 1)) \<le> i \<and> i < 2 ^ (w - 1)
                  else 0 \<le> i \<and> i < 2 ^ w)
    | _ \<Rightarrow> False)"

text \<open>
  \<^verbatim>\<open>pa.array(values, type)\<close>, for the primitive types the builder asks for. \<^verbatim>\<open>None\<close> is a
  null element. The conversion is modelled strictly: a value of another Python type
  than the column's, or an integer out of the column's range, is refused. The builder
  passes no other value for a well-typed message.
\<close>

definition fits :: "pa_type \<Rightarrow> pvalue \<Rightarrow> bool" where
  "fits t v = (v = PyNone \<or> (case t of
      pa_bool \<Rightarrow> (case v of PyBool b \<Rightarrow> True | _ \<Rightarrow> False)
    | pa_int32 \<Rightarrow> int_fits 32 True v
    | pa_int64 \<Rightarrow> int_fits 64 True v
    | pa_uint32 \<Rightarrow> int_fits 32 False v
    | pa_uint64 \<Rightarrow> int_fits 64 False v
    | pa_float32 \<Rightarrow> (case v of PyFloat x \<Rightarrow> True | _ \<Rightarrow> False)
    | pa_float64 \<Rightarrow> (case v of PyFloat x \<Rightarrow> True | _ \<Rightarrow> False)
    | pa_string \<Rightarrow> (case v of PyStr x \<Rightarrow> True | _ \<Rightarrow> False)
    | pa_binary \<Rightarrow> (case v of PyBytes x \<Rightarrow> True | _ \<Rightarrow> False)
    | pa_date32 \<Rightarrow> (case v of PyDate y m d \<Rightarrow> True | _ \<Rightarrow> False)
    | pa_timestamp u tz \<Rightarrow> int_fits 64 True v
    | pa_time64 u \<Rightarrow> int_fits 64 True v
    | pa_dictionary i d \<Rightarrow>
        i = pa_int32 \<and>
        (case v of PyBytes x \<Rightarrow> d = pa_binary | PyStr x \<Rightarrow> d = pa_string | _ \<Rightarrow> False)
    | _ \<Rightarrow> False))"

definition pa_array :: "pvalue list \<Rightarrow> pa_type \<Rightarrow> error + array" where
  "pa_array vs t = (if list_all (fits t) vs then Inr (Array t vs) else Inl ArrowInvalid)"

text \<open>
  \<^verbatim>\<open>ListArray.from_arrays\<close> and \<^verbatim>\<open>MapArray.from_arrays\<close>. A null offset marks a null
  list; Arrow then stores the next offset that is not null in its place, and refuses a
  null last offset. pyarrow validates the array it made: the first offset is not
  negative and the offsets span no more than the child array holds. That the offsets
  never decrease is not part of this validation.
\<close>

fun clean_offsets :: "int option list \<Rightarrow> int list" where
  "clean_offsets [] = []"
| "clean_offsets (Some x # os) = x # clean_offsets os"
| "clean_offsets (None # os) =
     (case clean_offsets os of [] \<Rightarrow> 0 | y # ys \<Rightarrow> y) # clean_offsets os"

definition offsets_validity :: "int option list \<Rightarrow> bool list" where
  "offsets_validity os = map (\<lambda>x. x \<noteq> None) (butlast os)"

definition offsets_span_ok :: "int list \<Rightarrow> nat \<Rightarrow> bool" where
  "offsets_span_ok os n =
     (os \<noteq> [] \<and> 0 \<le> hd os \<and> hd os \<le> last os \<and> last os - hd os \<le> int n)"

definition ListArray_from_arrays ::
    "int option list \<Rightarrow> array \<Rightarrow> pa_type \<Rightarrow> error + array" where
  "ListArray_from_arrays os vs t =
     (if os = [] \<or> last os = None then Inl ArrowInvalid
      else if \<not> offsets_span_ok (clean_offsets os) (array_len vs) then Inl ArrowInvalid
      else Inr (ListArray t (clean_offsets os) (offsets_validity os) vs))"

definition MapArray_from_arrays ::
    "int option list \<Rightarrow> array \<Rightarrow> array \<Rightarrow> error + array" where
  "MapArray_from_arrays os ks vs =
     (if os = [] \<or> last os = None \<or> array_len ks \<noteq> array_len vs then Inl ArrowInvalid
      else if \<not> offsets_span_ok (clean_offsets os) (array_len ks) then Inl ArrowInvalid
      else Inr (MapArray (clean_offsets os) (offsets_validity os) ks vs))"

text \<open>
  \<^verbatim>\<open>StructArray.from_arrays(arrays, fields, mask)\<close>: the children must have one length
  and the fields their types; a true bit of the mask makes the row null. With no child
  at all pyarrow returns the empty struct array, of length zero.
\<close>

definition StructArray_from_arrays ::
    "array list \<Rightarrow> pa_field list \<Rightarrow> bool list option \<Rightarrow> error + array" where
  "StructArray_from_arrays arrays fs msk =
     (case arrays of
        [] \<Rightarrow> (if fs = [] then Inr (StructArray [] [] []) else Inl ValueError)
      | a # as \<Rightarrow>
          if map array_type arrays \<noteq> map field_type fs then Inl ValueError
          else if \<not> list_all (\<lambda>b. array_len b = array_len a) as then Inl ArrowInvalid
          else (case msk of
                  None \<Rightarrow> Inr (StructArray fs arrays (replicate (array_len a) True))
                | Some m \<Rightarrow>
                    if length m \<noteq> array_len a then Inl ArrowInvalid
                    else Inr (StructArray fs arrays (map Not m))))"

datatype record_batch =
  RecordBatch (schema: "pa_field list") (columns: "array list") (num_rows: nat)

definition RecordBatch_from_struct_array :: "array \<Rightarrow> error + record_batch" where
  "RecordBatch_from_struct_array a = (case a of
      StructArray fs cs valid \<Rightarrow>
        Inr (RecordBatch fs cs (length valid))
    | _ \<Rightarrow> Inl TypeError)"

text \<open>
  Modelled from the spec: \<^verbatim>\<open>ProtarrowConfig\<close> (\<^verbatim>\<open>protarrow/common.py\<close> is not among the
  source files). Its options are those of the spec's configuration table; the source
  reads the enum representation as \<^verbatim>\<open>config.enum_type\<close>.
\<close>

datatype ProtarrowConfig =
  ProtarrowConfig (timestamp_unit: pa_unit) (timestamp_tz: string) (time_unit: pa_unit)
    (enum_type: pa_type)

definition default_config :: ProtarrowConfig where
  "default_config = ProtarrowConfig Unit_ns ''UTC'' Unit_ns pa_binary"

section \<open>From messages to arrays\<close>

text \<open>
  The builder of \<^verbatim>\<open>proto_to_arrow.py\<close>. The two tables keyed by descriptor and the table
  keyed by field type are functions into \<open>option\<close>, \<open>None\<close> for a missing key.
\<close>

definition PROTO_DESCRIPTOR_TO_PYARROW :: "descriptor \<Rightarrow> pa_type option" where
  "PROTO_DESCRIPTOR_TO_PYARROW d =
     (if d = Date_DESCRIPTOR then Some pa_date32
      else if d = Timestamp_DESCRIPTOR then Some (pa_timestamp Unit_ns ''UTC'')
      else if d = TimeOfDay_DESCRIPTOR then Some (pa_time64 Unit_ns)
      else if d = BoolValue_DESCRIPTOR then Some pa_bool
      else if d = BytesValue_DESCRIPTOR then Some pa_binary
      else if d = DoubleValue_DESCRIPTOR then Some pa_float64
      else if d = FloatValue_DESCRIPTOR then Some pa_float32
      else if d = Int32Value_DESCRIPTOR then Some pa_int32
      else if d = Int64Value_DESCRIPTOR then Some pa_int64
      else if d = StringValue_DESCRIPTOR then Some pa_string
      else if d = UInt32Value_DESCRIPTOR then Some pa_uint32
      else if d = UInt64Value_DESCRIPTOR then Some pa_uint64
      else None)"

definition PROTO_PRIMITIVE_TYPE_TO_PYARROW :: "proto_type \<Rightarrow> pa_type option" where
  "PROTO_PRIMITIVE_TYPE_TO_PYARROW t = (case t of
      TYPE_DOUBLE \<Rightarrow> Some pa_float64
    | TYPE_FLOAT \<Rightarrow> Some pa_float32
    | TYPE_INT64 \<Rightarrow> Some pa_int64
    | TYPE_UINT64 \<Rightarrow> Some pa_uint64
    | TYPE_INT32 \<Rightarrow> Some pa_int32
    | TYPE_FIXED64 \<Rightarrow> Some pa_uint64
    | TYPE_FIXED32 \<Rightarrow> Some pa_uint32
    | TYPE_BOOL \<Rightarrow> Some pa_bool
    | TYPE_STRING \<Rightarrow> Some pa_string
    | TYPE_BYTES \<Rightarrow> Some pa_binary
    | TYPE_UINT32 \<Rightarrow> Some pa_uint32
    | TYPE_ENUM \<Rightarrow> Some pa_binary
    | TYPE_SFIXED32 \<Rightarrow> Some pa_int32
    | TYPE_SFIXED64 \<Rightarrow> Some pa_int64
    | TYPE_SINT32 \<Rightarrow> Some pa_int32
    | TYPE_SINT64 \<Rightarrow> Some pa_int64
    | _ \<Rightarrow> None)"

definition time_of_day_to_nanos :: "pvalue \<Rightarrow> error + int" where
  "time_of_day_to_nanos time_of_day =
     and_then (get_int time_of_day ''hours'') (\<lambda>hours.
     and_then (get_int time_of_day ''minutes'') (\<lambda>minutes.
     and_then (get_int time_of_day ''seconds'') (\<lambda>seconds.
     and_then (get_int time_of_day ''nanos'') (\<lambda>nanos.
       Inr (((hours * 60 + minutes) * 60 + seconds) * 1000000000 + nanos)))))"

definition date_to_arrow :: "pvalue \<Rightarrow> error + pvalue" where
  "date_to_arrow x =
     and_then (get_int x ''year'') (\<lambda>y.
       if y = 0 then Inr PyNone
       else and_then (get_int x ''month'') (\<lambda>m.
            and_then (get_int x ''day'') (\<lambda>d. datetime_date y m d)))"

definition PROTO_DESCRIPTOR_TO_ARROW_CONVERTER ::
    "descriptor option \<Rightarrow> (pvalue \<Rightarrow> error + pvalue) option" where
  "PROTO_DESCRIPTOR_TO_ARROW_CONVERTER mt = (case mt of
      None \<Rightarrow> None
    | Some d \<Rightarrow>
        if d = Date_DESCRIPTOR then Some date_to_arrow
        else if d = Timestamp_DESCRIPTOR then
          Some (\<lambda>x. and_then (ToNanoseconds x) (\<lambda>n. Inr (PyInt n)))
        else if d = TimeOfDay_DESCRIPTOR then
          Some (\<lambda>x. and_then (time_of_day_to_nanos x) (\<lambda>n. Inr (PyInt n)))
        else if d \<in> {BoolValue_DESCRIPTOR, BytesValue_DESCRIPTOR, DoubleValue_DESCRIPTOR,
            FloatValue_DESCRIPTOR, Int32Value_DESCRIPTOR, Int64Value_DESCRIPTOR,
            StringValue_DESCRIPTOR, UInt32Value_DESCRIPTOR, UInt64Value_DESCRIPTOR}
        then Some (\<lambda>x. getattr x ''value'')
        else None)"

definition FlattenedIterable :: "pvalue iterable \<Rightarrow> pvalue iterable" where
  "FlattenedIterable parents =
     and_then parents (\<lambda>ps. and_then (traverse py_iter ps) (\<lambda>xss. Inr (concat xss)))"

definition NestedIterable ::
    "pvalue iterable \<Rightarrow> (pvalue \<Rightarrow> error + pvalue) \<Rightarrow> pvalue iterable" where
  "NestedIterable parents getter = and_then parents (traverse getter)"

definition MapKeyIterable :: "pvalue iterable \<Rightarrow> pvalue iterable" where
  "MapKeyIterable scalar_map =
     and_then scalar_map (\<lambda>ms. and_then (traverse keys ms) (\<lambda>xss. Inr (concat xss)))"

definition MapValueIterable :: "pvalue iterable \<Rightarrow> pvalue iterable" where
  "MapValueIterable scalar_map =
     and_then scalar_map (\<lambda>ms. and_then (traverse values_of ms) (\<lambda>xss. Inr (concat xss)))"

definition enum_name_converter ::
    "enum_descriptor option \<Rightarrow> (string \<Rightarrow> pvalue) \<Rightarrow> error + (pvalue \<Rightarrow> error + pvalue)" where
  "enum_name_converter enum_descriptor as_value = (case enum_descriptor of
      None \<Rightarrow> Inl AttributeError
    | Some e \<Rightarrow> Inr (\<lambda>x. case x of
        PyInt i \<Rightarrow> (case values_by_number e i of
                      None \<Rightarrow> Inl KeyError
                    | Some nm \<Rightarrow> Inr (as_value nm))
      | _ \<Rightarrow> Inl KeyError))"

definition get_enum_converter ::
    "pa_type \<Rightarrow> enum_descriptor option \<Rightarrow> error + (pvalue \<Rightarrow> error + pvalue)" where
  "get_enum_converter data_type enum_descriptor =
     (if data_type = pa_int32 then Inr (\<lambda>x. Inr x)
      else if data_type = pa_binary \<or> data_type = pa_dictionary pa_int32 pa_binary
        then enum_name_converter enum_descriptor PyBytes
      else if data_type = pa_string \<or> data_type = pa_dictionary pa_int32 pa_string
        then enum_name_converter enum_descriptor PyStr
      else Inl TypeError)"

fun convert_loop ::
    "(pvalue \<Rightarrow> error + pvalue) \<Rightarrow> pvalue \<Rightarrow> bool list option \<Rightarrow> nat \<Rightarrow> pvalue list
     \<Rightarrow> error + pvalue list" where
  "convert_loop converter null_value validity_mask i [] = Inr []"
| "convert_loop converter null_value validity_mask i (record # records) =
     and_then
       (if record = PyNone then Inr null_value
        else (case validity_mask of
                None \<Rightarrow> converter record
              | Some m \<Rightarrow>
                  if i < length m
                  then (if m ! i then converter record else Inr null_value)
                  else Inl IndexError))
       (\<lambda>v. and_then (convert_loop converter null_value validity_mask (Suc i) records)
          (\<lambda>array. Inr (v # array)))"

definition field_values_to_array ::
    "pvalue iterable \<Rightarrow> (pvalue \<Rightarrow> error + pvalue) \<Rightarrow> pa_type \<Rightarrow> pvalue
     \<Rightarrow> bool list option \<Rightarrow> error + array" where
  "field_values_to_array records converter pa_type null_value validity_mask =
     and_then records (\<lambda>rs.
     and_then (convert_loop converter null_value validity_mask 0 rs) (\<lambda>array.
       pa_array array pa_type))"

fun get_offsets_loop :: "int \<Rightarrow> pvalue list \<Rightarrow> error + int option list" where
  "get_offsets_loop last_offset [] = Inr [Some last_offset]"
| "get_offsets_loop last_offset (record # records) =
     (if record = PyNone
      then and_then (get_offsets_loop last_offset records) (\<lambda>offsets. Inr (None # offsets))
      else and_then (py_len record) (\<lambda>n.
           and_then (get_offsets_loop (last_offset + n) records) (\<lambda>offsets.
             Inr (Some last_offset # offsets))))"

definition get_offsets :: "pvalue iterable \<Rightarrow> error + int option list" where
  "get_offsets records = and_then records (get_offsets_loop 0)"

definition proto_field_nullable :: "field_descriptor \<Rightarrow> bool \<Rightarrow> bool" where
  "proto_field_nullable field is_struct =
     (ftype field = TYPE_MESSAGE \<or> (is_struct \<and> label field = LABEL_REPEATED))"

definition proto_field_validity_mask ::
    "pvalue iterable \<Rightarrow> field_descriptor \<Rightarrow> error + bool list option" where
  "proto_field_validity_mask records field =
     (if ftype field \<noteq> TYPE_MESSAGE \<or> label field = LABEL_REPEATED then Inr None
      else and_then records (\<lambda>rs.
           and_then (traverse (\<lambda>record. if record = PyNone then Inr False
                                          else HasField record (name field)) rs)
             (\<lambda>m. Inr (Some m))))"

definition is_map_field :: "field_descriptor \<Rightarrow> bool" where
  "is_map_field field = (case message_type field of None \<Rightarrow> False | Some d \<Rightarrow> map_entry d)"

lemma size_message_type [termination_simp]:
  "message_type field = Some d \<Longrightarrow> size d < size field"
  by (cases field) simp

lemma size_field_in_fields:
  "f \<in> set (fields d) \<Longrightarrow> size f < size d"
  by (cases d) (auto simp: less_Suc_eq_le dest: size_list_estimation')

lemma size_fields_by_name [termination_simp]:
  "fields_by_name d n = Inr f \<Longrightarrow> size f < size d"
  by (auto simp: fields_by_name_def find_Some_iff split: option.splits
           intro!: size_field_in_fields)

lemma size_fields: "Suc (2 * size_list size (fields d)) < 2 * size d"
  by (cases d) simp

lemma size_map_entry_field:
  "message_type field = Some d \<Longrightarrow> fields_by_name d n = Inr f
   \<Longrightarrow> 2 * size f < Suc (2 * size field)"
  using size_message_type [of field d] size_fields_by_name [of d n f] by simp

function proto_field_to_array ::
    "pvalue iterable \<Rightarrow> field_descriptor \<Rightarrow> bool list option \<Rightarrow> ProtarrowConfig
     \<Rightarrow> error + array"
and repeated_proto_to_array ::
    "pvalue iterable \<Rightarrow> field_descriptor \<Rightarrow> ProtarrowConfig \<Rightarrow> error + array"
and proto_map_to_array ::
    "pvalue iterable \<Rightarrow> field_descriptor \<Rightarrow> ProtarrowConfig \<Rightarrow> error + array"
and message_to_array ::
    "pvalue iterable \<Rightarrow> descriptor \<Rightarrow> bool list option \<Rightarrow> ProtarrowConfig
     \<Rightarrow> error + array"
and message_fields_to_arrays ::
    "pvalue iterable \<Rightarrow> field_descriptor list \<Rightarrow> ProtarrowConfig
     \<Rightarrow> error + (array \<times> pa_field) list"
where
  "proto_field_to_array records field validity_mask config =
     (if ftype field = TYPE_MESSAGE then
        (case PROTO_DESCRIPTOR_TO_ARROW_CONVERTER (message_type field) of
           None \<Rightarrow>
             (case message_type field of
                None \<Rightarrow> Inl AttributeError
              | Some d \<Rightarrow> message_to_array records d validity_mask config)
         | Some converter \<Rightarrow>
             (case message_type field of
                None \<Rightarrow> Inl KeyError
              | Some d \<Rightarrow>
                 (case PROTO_DESCRIPTOR_TO_PYARROW d of
                    None \<Rightarrow> Inl KeyError
                  | Some pa_type \<Rightarrow>
                      field_values_to_array records converter pa_type PyNone validity_mask)))
      else if ftype field = TYPE_ENUM then
        and_then (get_enum_converter (enum_type config) (field_enum_type field)) (\<lambda>converter.
          field_values_to_array records converter (enum_type config) (default_value field)
            validity_mask)
      else
        (case PROTO_PRIMITIVE_TYPE_TO_PYARROW (ftype field) of
           None \<Rightarrow> Inl RuntimeError
         | Some pa_type \<Rightarrow>
             field_values_to_array records Inr pa_type (default_value field) validity_mask))"
| "repeated_proto_to_array records field config =
     and_then (get_offsets records) (\<lambda>offsets.
     and_then (proto_field_to_array (FlattenedIterable records) field None config) (\<lambda>array.
       ListArray_from_arrays offsets array
         (pa_list (pa_field ''item'' (array_type array) (ftype field = TYPE_MESSAGE)))))"
| "proto_map_to_array records field config =
     (case message_type field of
        None \<Rightarrow> Inl AttributeError
      | Some d \<Rightarrow>
          and_then (fields_by_name d ''key'') (\<lambda>key_field.
          and_then (fields_by_name d ''value'') (\<lambda>value_field.
          and_then (get_offsets records) (\<lambda>offsets.
          and_then (proto_field_to_array (MapKeyIterable records) key_field None config) (\<lambda>ks.
          and_then (proto_field_to_array (MapValueIterable records) value_field None config)
            (\<lambda>vs. MapArray_from_arrays offsets ks vs))))))"
| "message_to_array records descriptor validity_mask config =
     and_then (message_fields_to_arrays records (fields descriptor) config) (\<lambda>cols.
       StructArray_from_arrays (map fst cols) (map snd cols)
         (case validity_mask of
            None \<Rightarrow> None
          | Some m \<Rightarrow> if m = [] then None else Some (map Not m)))"
| "message_fields_to_arrays records [] config = Inr []"
| "message_fields_to_arrays records (field # fs) config =
     and_then
       (if is_map_field field then
          proto_map_to_array (NestedIterable records (\<lambda>r. getattr r (name field))) field config
        else if label field = LABEL_REPEATED then
          repeated_proto_to_array (NestedIterable records (\<lambda>r. getattr r (name field)))
            field config
        else
          and_then (proto_field_validity_mask records field) (\<lambda>m.
            proto_field_to_array (NestedIterable records (\<lambda>r. getattr r (name field)))
              field m config))
       (\<lambda>array.
          and_then (message_fields_to_arrays records fs config) (\<lambda>rest.
            Inr ((array, pa_field (name field) (array_type array)
                   (proto_field_nullable field True)) # rest)))"
  by pat_completeness auto
termination
  by (relation "measure (\<lambda>x. case x of
        Inl (Inl (r, f, m, c)) \<Rightarrow> 2 * size f
      | Inl (Inr (r, f, c)) \<Rightarrow> 2 * size f + 1
      | Inr (Inl (r, f, c)) \<Rightarrow> 2 * size f + 1
      | Inr (Inr (Inl (r, d, m, c))) \<Rightarrow> 2 * size d
      | Inr (Inr (Inr (r, fs, c))) \<Rightarrow> 2 * size_list size fs + 1)")
    (auto dest: size_message_type simp: size_fields intro: size_map_entry_field)


definition messages_to_record_batch ::
    "pvalue list \<Rightarrow> descriptor \<Rightarrow> ProtarrowConfig \<Rightarrow> error + record_batch" where
  "messages_to_record_batch records message_type_DESCRIPTOR config =
     and_then (message_to_array (Inr records) message_type_DESCRIPTOR None config)
       RecordBatch_from_struct_array"

section \<open>From arrays to messages\<close>

subsection \<open>Scalar conversions\<close>

definition TIMESTAMP_CONVERTER :: "pa_unit \<Rightarrow> int" where
  "TIMESTAMP_CONVERTER u = (case u of
      Unit_ns \<Rightarrow> 1 | Unit_us \<Rightarrow> 1000 | Unit_ms \<Rightarrow> 1000000 | Unit_s \<Rightarrow> 1000000000)"

definition TIME_CONVERTER :: "pa_type \<Rightarrow> int option" where
  "TIME_CONVERTER t =
     (if t = pa_time64 Unit_ns then Some 1
      else if t = pa_time64 Unit_us then Some 1000 else None)"

definition timestamp_scalar_to_proto :: "scalar \<Rightarrow> error + pvalue" where
  "timestamp_scalar_to_proto sc = (case fst sc of
      pa_timestamp u tz \<Rightarrow>
        (case snd sc of
           PyInt v \<Rightarrow> Inr (FromNanoseconds (v * TIMESTAMP_CONVERTER u))
         | _ \<Rightarrow> Inl TypeError)
    | _ \<Rightarrow> Inl AttributeError)"

text \<open>\<^verbatim>\<open>pc.multiply\<close> is the unchecked kernel: on \<^verbatim>\<open>int64\<close> it wraps around.\<close>

definition wrap_int64 :: "int \<Rightarrow> int" where
  "wrap_int64 x = (x + 2 ^ 63) mod 2 ^ 64 - 2 ^ 63"

definition prepare_array :: "array \<Rightarrow> error + array" where
  "prepare_array a = (case a of
      Array t vs \<Rightarrow>
        (case t of
           pa_time64 u \<Rightarrow>
             (case TIME_CONVERTER t of
                None \<Rightarrow> Inl KeyError
              | Some ratio \<Rightarrow>
                  Inr (Array pa_int64
                    (map (\<lambda>v. case v of PyInt i \<Rightarrow> PyInt (wrap_int64 (i * ratio)) | _ \<Rightarrow> v) vs)))
         | _ \<Rightarrow> Inr a)
    | _ \<Rightarrow> Inr a)"

definition date_scalar_to_proto :: "scalar \<Rightarrow> error + pvalue" where
  "date_scalar_to_proto sc = (case as_py sc of
      PyDate y m d \<Rightarrow> Inr (Date y m d)
    | _ \<Rightarrow> Inl AttributeError)"

text \<open>
  The constructor \<^verbatim>\<open>TimeOfDay(...)\<close> checks that each field is an \<^verbatim>\<open>int32\<close>; of the four
  values only the hours can be out of that range.
\<close>

definition time_of_day_scalar_to_proto :: "scalar \<Rightarrow> error + pvalue" where
  "time_of_day_scalar_to_proto sc = (case as_py sc of
      PyInt total_nanos \<Rightarrow>
        if int_fits 32 True (PyInt (total_nanos div 3600000000000))
        then Inr (TimeOfDay
               (total_nanos div 3600000000000)
               ((total_nanos div 60000000000) mod 60)
               ((total_nanos div 1000000000) mod 60)
               (total_nanos mod 1000000000))
        else Inl ValueError
    | _ \<Rightarrow> Inl TypeError)"

definition SPECIAL_TYPES :: "descriptor option \<Rightarrow> (scalar \<Rightarrow> error + pvalue) option" where
  "SPECIAL_TYPES mt = (case mt of
      None \<Rightarrow> None
    | Some d \<Rightarrow>
        if d = Timestamp_DESCRIPTOR then Some timestamp_scalar_to_proto
        else if d = Date_DESCRIPTOR then Some date_scalar_to_proto
        else if d = TimeOfDay_DESCRIPTOR then Some time_of_day_scalar_to_proto
        else None)"

definition NULLABLE_TYPES :: "descriptor list" where
  "NULLABLE_TYPES =
     [BoolValue_DESCRIPTOR, BytesValue_DESCRIPTOR, DoubleValue_DESCRIPTOR,
      FloatValue_DESCRIPTOR, Int32Value_DESCRIPTOR, Int64Value_DESCRIPTOR,
      StringValue_DESCRIPTOR, UInt32Value_DESCRIPTOR, UInt64Value_DESCRIPTOR]"

definition in_NULLABLE_TYPES :: "descriptor option \<Rightarrow> bool" where
  "in_NULLABLE_TYPES mt = (case mt of None \<Rightarrow> False | Some d \<Rightarrow> d \<in> set NULLABLE_TYPES)"

definition is_custom_field :: "field_descriptor \<Rightarrow> bool" where
  "is_custom_field field_descriptor =
     (ftype field_descriptor = TYPE_MESSAGE
      \<and> SPECIAL_TYPES (message_type field_descriptor) = None
      \<and> \<not> in_NULLABLE_TYPES (message_type field_descriptor))"

fun differences :: "int \<Rightarrow> int list \<Rightarrow> int list" where
  "differences current_offset [] = []"
| "differences current_offset (offset # rest) =
     (offset - current_offset) # differences offset rest"

definition OffsetToSize :: "int list \<Rightarrow> int iterable" where
  "OffsetToSize offs = (case offs of [] \<Rightarrow> Inl IndexError | x # xs \<Rightarrow> Inr (differences x xs))"

definition convert_scalar :: "scalar \<Rightarrow> error + pvalue" where
  "convert_scalar sc = Inr (as_py sc)"

text \<open>
  \<^verbatim>\<open>values_by_name.get\<close> of the runtime's descriptor container finds a name given as
  \<^verbatim>\<open>str\<close> or as \<^verbatim>\<open>bytes\<close>, and nothing for any other key.
\<close>

definition convert_enum :: "enum_descriptor \<Rightarrow> scalar \<Rightarrow> error + pvalue" where
  "convert_enum enum_descriptor sc = Inr (case as_py sc of
      PyStr n \<Rightarrow> (case values_by_name enum_descriptor n of
                    None \<Rightarrow> PyNone | Some num \<Rightarrow> PyInt num)
    | PyBytes n \<Rightarrow> (case values_by_name enum_descriptor n of
                      None \<Rightarrow> PyNone | Some num \<Rightarrow> PyInt num)
    | _ \<Rightarrow> PyNone)"

definition get_converter :: "field_descriptor \<Rightarrow> error + (scalar \<Rightarrow> error + pvalue)" where
  "get_converter field_descriptor =
     (if ftype field_descriptor = TYPE_ENUM then
        (case field_enum_type field_descriptor of
           None \<Rightarrow> Inr (\<lambda>sc. Inl AttributeError)
         | Some e \<Rightarrow> Inr (convert_enum e))
      else if ftype field_descriptor = TYPE_MESSAGE then
        (if in_NULLABLE_TYPES (message_type field_descriptor) then Inr convert_scalar
         else (case SPECIAL_TYPES (message_type field_descriptor) of
                 None \<Rightarrow> Inl KeyError
               | Some f \<Rightarrow> Inr f))
      else Inr convert_scalar)"

subsection \<open>Writing into messages\<close>

text \<open>
  What the protobuf runtime does on a write. The value assigned to a scalar field is
  checked against the field's type; the check is modelled strictly, one Python type for
  each field type. A write into a sub-message makes it present.
\<close>

definition check_int :: "nat \<Rightarrow> bool \<Rightarrow> pvalue \<Rightarrow> error + pvalue" where
  "check_int w is_signed v = (case v of
      PyInt i \<Rightarrow> if int_fits w is_signed v then Inr v else Inl ValueError
    | _ \<Rightarrow> Inl TypeError)"

definition check_value :: "proto_type \<Rightarrow> pvalue \<Rightarrow> error + pvalue" where
  "check_value t v =
     (if t \<in> {TYPE_INT32, TYPE_SINT32, TYPE_SFIXED32, TYPE_ENUM} then check_int 32 True v
      else if t \<in> {TYPE_INT64, TYPE_SINT64, TYPE_SFIXED64} then check_int 64 True v
      else if t \<in> {TYPE_UINT32, TYPE_FIXED32} then check_int 32 False v
      else if t \<in> {TYPE_UINT64, TYPE_FIXED64} then check_int 64 False v
      else if t \<in> {TYPE_DOUBLE, TYPE_FLOAT} then
        (case v of PyFloat x \<Rightarrow> Inr v | _ \<Rightarrow> Inl TypeError)
      else if t = TYPE_BOOL then (case v of PyBool x \<Rightarrow> Inr v | _ \<Rightarrow> Inl TypeError)
      else if t = TYPE_STRING then (case v of PyStr x \<Rightarrow> Inr v | _ \<Rightarrow> Inl TypeError)
      else if t = TYPE_BYTES then (case v of PyBytes x \<Rightarrow> Inr v | _ \<Rightarrow> Inl TypeError)
      else Inl AttributeError)"

fun update_slot ::
    "string \<Rightarrow> (pvalue \<Rightarrow> error + pvalue) \<Rightarrow> (string \<times> pvalue) list
     \<Rightarrow> error + (string \<times> pvalue) list" where
  "update_slot n w [] = Inl AttributeError"
| "update_slot n w ((k, v) # fs) =
     (if k = n then and_then (w v) (\<lambda>v'. Inr ((k, v') # fs))
      else and_then (update_slot n w fs) (\<lambda>fs'. Inr ((k, v) # fs')))"

definition modify_field ::
    "pvalue \<Rightarrow> string \<Rightarrow> (pvalue \<Rightarrow> error + pvalue) \<Rightarrow> error + pvalue" where
  "modify_field m n w = (case m of
      Message fs \<Rightarrow> and_then (update_slot n w fs) (\<lambda>fs'. Inr (Message fs'))
    | _ \<Rightarrow> Inl AttributeError)"

definition setattr :: "pvalue \<Rightarrow> field_descriptor \<Rightarrow> pvalue \<Rightarrow> error + pvalue" where
  "setattr m fd v =
     (if label fd = LABEL_REPEATED then Inl AttributeError
      else modify_field m (name fd) (\<lambda>old. check_value (ftype fd) v))"

text \<open>\<^verbatim>\<open>getattr(message, name).value = value\<close>, for a wrapper field.\<close>

definition set_wrapper_value :: "pvalue \<Rightarrow> field_descriptor \<Rightarrow> pvalue \<Rightarrow> error + pvalue" where
  "set_wrapper_value m fd v =
     modify_field m (name fd) (\<lambda>old. case old of
        Submessage p sub \<Rightarrow>
          (case message_type fd of
             None \<Rightarrow> Inl AttributeError
           | Some d \<Rightarrow>
               and_then (fields_by_name d ''value'') (\<lambda>vf.
               and_then (setattr sub vf v) (\<lambda>sub'. Inr (Submessage True sub'))))
      | _ \<Rightarrow> Inl AttributeError)"

text \<open>
  \<^verbatim>\<open>MergeFrom\<close>, for the messages the extractor merges: a \<^verbatim>\<open>Timestamp\<close>, a \<^verbatim>\<open>Date\<close> or a
  \<^verbatim>\<open>TimeOfDay\<close>, whose fields are singular scalars. A field that holds its default in
  the source leaves the target's value; an argument that is not a message of the
  target's class is a \<^verbatim>\<open>TypeError\<close>.
\<close>

definition is_default_scalar :: "pvalue \<Rightarrow> bool" where
  "is_default_scalar v = (v \<in> {PyInt 0, PyBool False, PyStr [], PyBytes [], PyFloat 0})"

fun merge_fields ::
    "(string \<times> pvalue) list \<Rightarrow> (string \<times> pvalue) list \<Rightarrow> (string \<times> pvalue) list" where
  "merge_fields ((k, t) # ts) ((k', s) # ss) =
     (k, if is_default_scalar s then t else s) # merge_fields ts ss"
| "merge_fields ts ss = ts"

definition MergeFrom :: "pvalue \<Rightarrow> pvalue \<Rightarrow> error + pvalue" where
  "MergeFrom tgt src = (case tgt of
      Message ts \<Rightarrow>
        (case src of
           Message ss \<Rightarrow>
             if map fst ts = map fst ss then Inr (Message (merge_fields ts ss))
             else Inl TypeError
         | _ \<Rightarrow> Inl TypeError)
    | _ \<Rightarrow> Inl AttributeError)"

text \<open>\<^verbatim>\<open>getattr(message, name).MergeFrom(x)\<close>.\<close>

definition merge_into :: "pvalue \<Rightarrow> string \<Rightarrow> pvalue \<Rightarrow> error + pvalue" where
  "merge_into m n x =
     modify_field m n (\<lambda>old. case old of
        Submessage p sub \<Rightarrow> and_then (MergeFrom sub x) (\<lambda>sub'. Inr (Submessage True sub'))
      | _ \<Rightarrow> Inl AttributeError)"

text \<open>
  \<^verbatim>\<open>append\<close> on a repeated field. A repeated scalar field checks the value as an
  assignment does, so \<^verbatim>\<open>None\<close> is a \<^verbatim>\<open>TypeError\<close>; a repeated message field takes a
  message and nothing else.
\<close>

definition check_element :: "field_descriptor \<Rightarrow> pvalue \<Rightarrow> error + pvalue" where
  "check_element fd v =
     (if ftype fd = TYPE_MESSAGE then (case v of Message fs \<Rightarrow> Inr v | _ \<Rightarrow> Inl TypeError)
      else check_value (ftype fd) v)"

definition append :: "pvalue \<Rightarrow> field_descriptor \<Rightarrow> pvalue \<Rightarrow> error + pvalue" where
  "append m fd v =
     modify_field m (name fd) (\<lambda>old. case old of
        RepeatedContainer xs \<Rightarrow>
          and_then (check_element fd v) (\<lambda>v'. Inr (RepeatedContainer (xs @ [v'])))
      | _ \<Rightarrow> Inl AttributeError)"

text \<open>A map container is a Python dictionary: a new key goes last.\<close>

fun map_update :: "pvalue \<Rightarrow> pvalue \<Rightarrow> (pvalue \<times> pvalue) list \<Rightarrow> (pvalue \<times> pvalue) list" where
  "map_update k v [] = [(k, v)]"
| "map_update k v ((k', v') # kvs) =
     (if k' = k then (k, v) # kvs else (k', v') # map_update k v kvs)"

definition direct_assign ::
    "pvalue \<Rightarrow> field_descriptor \<Rightarrow> proto_type \<Rightarrow> proto_type \<Rightarrow> pvalue \<Rightarrow> pvalue
     \<Rightarrow> error + pvalue option" where
  "direct_assign m fd key_type value_type k v =
     and_then
       (modify_field m (name fd) (\<lambda>old. case old of
          MapContainer kvs \<Rightarrow>
            and_then (check_value key_type k) (\<lambda>k'.
            and_then (check_value value_type v) (\<lambda>v'.
              Inr (MapContainer (map_update k' v' kvs))))
        | _ \<Rightarrow> Inl TypeError))
       (\<lambda>m'. Inr (Some m'))"

text \<open>
  \<^verbatim>\<open>attribute[key]\<close> on a map of messages returns the entry of the key and creates it,
  a default message, when the map has none; only the creation is a write.
\<close>

definition merge_assign ::
    "pvalue \<Rightarrow> field_descriptor \<Rightarrow> proto_type \<Rightarrow> pvalue \<Rightarrow> pvalue \<Rightarrow> pvalue
     \<Rightarrow> error + pvalue option" where
  "merge_assign m fd key_type dflt k v =
     (case m of
        Message fs \<Rightarrow>
          (case map_of fs (name fd) of
             Some (MapContainer kvs) \<Rightarrow>
               and_then (check_value key_type k) (\<lambda>k'.
                 if v = PyNone then
                   (case map_of kvs k' of
                      Some cur \<Rightarrow> Inr None
                    | None \<Rightarrow>
                        and_then (modify_field m (name fd)
                            (\<lambda>old. Inr (MapContainer (map_update k' dflt kvs))))
                          (\<lambda>m'. Inr (Some m')))
                 else
                   and_then
                     (MergeFrom (case map_of kvs k' of Some cur \<Rightarrow> cur | None \<Rightarrow> dflt) v)
                     (\<lambda>merged.
                        and_then (modify_field m (name fd)
                            (\<lambda>old. Inr (MapContainer (map_update k' merged kvs))))
                          (\<lambda>m'. Inr (Some m'))))
           | _ \<Rightarrow> Inl TypeError)
      | _ \<Rightarrow> Inl AttributeError)"


subsection \<open>Cells and handles\<close>

text \<open>
  The extractor writes into messages through references: the messages of a call are
  the top-level messages, the sub-messages of a field of each, the elements of a
  repeated field of each, or the entries of a map field of each. A call therefore works
  on a list of cells, the messages of one level, each with a bit that records whether
  the call wrote into it, and on a list of handles, one for each row of the array: the
  index of the row's cell, or \<open>None\<close> for the throw-away message that stands in for an
  absent sub-message. Two handles may name one cell. The caller gathers the cells of the
  next level from its own, runs the callee and puts the results back; a cell that was
  written makes the sub-message that holds it present, as the runtime does.

  A throw-away message is made anew for each iteration over the messages, so it holds
  defaults whenever it is read; writes into it are checked and dropped.
\<close>

type_synonym cell = "bool \<times> pvalue"

type_synonym handle = "nat option"

definition write_cell ::
    "handle \<Rightarrow> field_descriptor \<Rightarrow> (pvalue \<Rightarrow> error + pvalue option) \<Rightarrow> cell list
     \<Rightarrow> error + cell list" where
  "write_cell h fd w cells = (case h of
      None \<Rightarrow> and_then (w (Message [(name fd, new_slot fd)])) (\<lambda>r. Inr cells)
    | Some i \<Rightarrow>
        if i < length cells then
          and_then (w (snd (cells ! i))) (\<lambda>r. case r of
             None \<Rightarrow> Inr cells
           | Some m' \<Rightarrow> Inr (cells[i := (True, m')]))
        else Inl IndexError)"

fun assign_loop ::
    "field_descriptor \<Rightarrow> ('s \<Rightarrow> pvalue \<Rightarrow> error + pvalue option) \<Rightarrow> (handle \<times> 's) list
     \<Rightarrow> cell list \<Rightarrow> error + cell list" where
  "assign_loop fd call [] cells = Inr cells"
| "assign_loop fd call ((h, x) # rest) cells =
     and_then (write_cell h fd (call x) cells) (assign_loop fd call rest)"

text \<open>
  \<^verbatim>\<open>AppendAssigner\<close>, \<^verbatim>\<open>MapKeyAssigner\<close> and \<^verbatim>\<open>MapItemAssigner\<close> yield the message of a row
  once for each of its elements.
\<close>

definition assigner_targets :: "handle list \<Rightarrow> int list \<Rightarrow> handle list" where
  "assigner_targets hs sizes = concat (map (\<lambda>(h, n). replicate (nat n) h) (zip hs sizes))"

definition PlainAssigner_call ::
    "field_descriptor \<Rightarrow> (scalar \<Rightarrow> error + pvalue) \<Rightarrow> bool \<Rightarrow> scalar \<Rightarrow> pvalue
     \<Rightarrow> error + pvalue option" where
  "PlainAssigner_call fd converter is_nullable sc m =
     (if scalar_is_valid sc then
        and_then (converter sc) (\<lambda>v.
          if v \<noteq> PyNone then
            and_then (if is_nullable then set_wrapper_value m fd v else setattr m fd v)
              (\<lambda>m'. Inr (Some m'))
          else Inr None)
      else Inr None)"

definition AppendAssigner_call ::
    "field_descriptor \<Rightarrow> ('s \<Rightarrow> error + pvalue) \<Rightarrow> 's \<Rightarrow> pvalue \<Rightarrow> error + pvalue option" where
  "AppendAssigner_call fd converter x m =
     and_then (converter x) (\<lambda>v. and_then (append m fd v) (\<lambda>m'. Inr (Some m')))"

definition MapItemAssigner_call ::
    "field_descriptor \<Rightarrow> field_descriptor \<Rightarrow> field_descriptor
     \<Rightarrow> (scalar \<Rightarrow> error + pvalue) \<Rightarrow> (scalar \<Rightarrow> error + pvalue)
     \<Rightarrow> scalar \<times> scalar \<Rightarrow> pvalue \<Rightarrow> error + pvalue option" where
  "MapItemAssigner_call fd key_field value_field key_converter value_converter kv m =
     and_then (key_converter (fst kv)) (\<lambda>k.
     and_then (if scalar_is_valid (snd kv) then value_converter (snd kv) else Inr PyNone) (\<lambda>v.
       if ftype value_field = TYPE_MESSAGE then
         (case message_type value_field of
            None \<Rightarrow> Inl AttributeError
          | Some d \<Rightarrow> merge_assign m fd (ftype key_field) (concrete_class d) k v)
       else direct_assign m fd (ftype key_field) (ftype value_field) k v))"

definition array_offsets :: "array \<Rightarrow> error + int list" where
  "array_offsets a = (case a of
      ListArray t os valid vs \<Rightarrow> Inr os
    | MapArray os valid ks vs \<Rightarrow> Inr os
    | _ \<Rightarrow> Inl AttributeError)"

definition array_values :: "array \<Rightarrow> error + array" where
  "array_values a = (case a of ListArray t os valid vs \<Rightarrow> Inr vs | _ \<Rightarrow> Inl AttributeError)"

definition extract_repeated_primitive_assigner ::
    "array \<Rightarrow> field_descriptor \<Rightarrow> handle list \<Rightarrow> cell list \<Rightarrow> error + cell list" where
  "extract_repeated_primitive_assigner array field_descriptor messages cells =
     and_then (array_offsets array) (\<lambda>offs.
     and_then (get_converter field_descriptor) (\<lambda>converter.
     and_then (array_values array) (\<lambda>vs.
     and_then (prepare_array vs) (\<lambda>vs'.
     and_then (OffsetToSize offs) (\<lambda>sizes.
       assign_loop field_descriptor (AppendAssigner_call field_descriptor converter)
         (zip (assigner_targets messages sizes) (scalars vs')) cells)))))"

subsection \<open>The cells of the next level\<close>

definition get_slot :: "pvalue \<Rightarrow> string \<Rightarrow> pvalue option" where
  "get_slot m n = (case m of Message fs \<Rightarrow> map_of fs n | _ \<Rightarrow> None)"

definition set_slot :: "pvalue \<Rightarrow> string \<Rightarrow> pvalue \<Rightarrow> pvalue" where
  "set_slot m n v = (case m of
      Message fs \<Rightarrow> Message (map (\<lambda>(k, x). if k = n then (k, v) else (k, x)) fs)
    | _ \<Rightarrow> m)"

fun chunks :: "nat list \<Rightarrow> 'a list \<Rightarrow> 'a list list" where
  "chunks [] xs = []"
| "chunks (n # ns) xs = take n xs # chunks ns (drop n xs)"

text \<open>\<^verbatim>\<open>OptionalNestedIterable\<close>: the sub-message of a row, or the throw-away message.\<close>

definition child_cell :: "string \<Rightarrow> cell \<Rightarrow> cell" where
  "child_cell n c =
     (False, case get_slot (snd c) n of Some (Submessage p sub) \<Rightarrow> sub | _ \<Rightarrow> PyNone)"

definition put_child :: "string \<Rightarrow> cell \<Rightarrow> cell \<Rightarrow> cell" where
  "put_child n c c' =
     (fst c \<or> fst c',
      case get_slot (snd c) n of
        Some (Submessage p sub) \<Rightarrow> set_slot (snd c) n (Submessage (p \<or> fst c') (snd c'))
      | _ \<Rightarrow> snd c)"

definition OptionalNestedIterable :: "handle list \<Rightarrow> bool list \<Rightarrow> handle list" where
  "OptionalNestedIterable parents validity_mask =
     map (\<lambda>(parent, valid). if valid then parent else None) (zip parents validity_mask)"

text \<open>\<^verbatim>\<open>RepeatedNestedIterable\<close>: the elements of the repeated field of each row.\<close>

definition elements_of :: "string \<Rightarrow> cell \<Rightarrow> pvalue list" where
  "elements_of n c =
     (case get_slot (snd c) n of Some (RepeatedContainer xs) \<Rightarrow> xs | _ \<Rightarrow> [])"

definition put_elements :: "string \<Rightarrow> cell \<Rightarrow> cell list \<Rightarrow> cell" where
  "put_elements n c cs =
     (fst c \<or> list_ex fst cs,
      case get_slot (snd c) n of
        Some (RepeatedContainer xs) \<Rightarrow> set_slot (snd c) n (RepeatedContainer (map snd cs))
      | _ \<Rightarrow> snd c)"

definition child_base :: "(cell \<Rightarrow> nat) \<Rightarrow> cell list \<Rightarrow> nat \<Rightarrow> nat" where
  "child_base cnt cells i = sum_list (map cnt (take i cells))"

definition RepeatedNestedIterable :: "string \<Rightarrow> cell list \<Rightarrow> handle list \<Rightarrow> handle list" where
  "RepeatedNestedIterable n cells parents =
     concat (map (\<lambda>parent. case parent of
        None \<Rightarrow> []
      | Some i \<Rightarrow>
          if i < length cells then
            map (\<lambda>j. Some (child_base (\<lambda>c. length (elements_of n c)) cells i + j))
              [0..<length (elements_of n (cells ! i))]
          else []) parents)"

text \<open>The entries of the map field of each row, and the reservation of an entry by key.\<close>

definition entries_of :: "string \<Rightarrow> cell \<Rightarrow> (pvalue \<times> pvalue) list" where
  "entries_of n c =
     (case get_slot (snd c) n of Some (MapContainer kvs) \<Rightarrow> kvs | _ \<Rightarrow> [])"

definition put_entries :: "string \<Rightarrow> cell \<Rightarrow> cell list \<Rightarrow> cell" where
  "put_entries n c cs =
     (fst c \<or> list_ex fst cs,
      case get_slot (snd c) n of
        Some (MapContainer kvs) \<Rightarrow>
          set_slot (snd c) n (MapContainer (zip (map fst kvs) (map snd cs)))
      | _ \<Rightarrow> snd c)"

fun index_of :: "'a \<Rightarrow> 'a list \<Rightarrow> nat" where
  "index_of x [] = 0"
| "index_of x (y # ys) = (if x = y then 0 else Suc (index_of x ys))"

definition reserve_key :: "string \<Rightarrow> pvalue \<Rightarrow> pvalue \<Rightarrow> pvalue \<Rightarrow> error + pvalue option" where
  "reserve_key n dflt k m = (case get_slot m n of
      Some (MapContainer kvs) \<Rightarrow>
        if k \<in> set (map fst kvs) then Inr None
        else Inr (Some (set_slot m n (MapContainer (kvs @ [(k, dflt)]))))
    | _ \<Rightarrow> Inl TypeError)"

text \<open>
  \<^verbatim>\<open>MapKeyAssigner\<close>, called on each key: the entry of the key in the map of the row's
  message, created when the map has none. The rows of the throw-away message share its
  map for the iteration (\<open>fake\<close>). The result names each entry by its row's handle and
  its key.
\<close>

fun reserve_loop ::
    "field_descriptor \<Rightarrow> proto_type \<Rightarrow> (scalar \<Rightarrow> error + pvalue) \<Rightarrow> pvalue
     \<Rightarrow> (handle \<times> scalar) list \<Rightarrow> cell list \<Rightarrow> (pvalue \<times> pvalue) list
     \<Rightarrow> error + ((handle \<times> pvalue) list \<times> cell list \<times> (pvalue \<times> pvalue) list)" where
  "reserve_loop fd key_type converter dflt [] cells fake = Inr ([], cells, fake)"
| "reserve_loop fd key_type converter dflt ((h, key) # rest) cells fake =
     and_then (converter key) (\<lambda>k.
     and_then (check_value key_type k) (\<lambda>k'.
     and_then
       (case h of
          None \<Rightarrow>
            Inr (cells, if k' \<in> set (map fst fake) then fake else fake @ [(k', dflt)])
        | Some i \<Rightarrow>
            and_then (write_cell h fd (reserve_key (name fd) dflt k') cells)
              (\<lambda>cells'. Inr (cells', fake)))
       (\<lambda>(cells', fake').
          and_then (reserve_loop fd key_type converter dflt rest cells' fake')
            (\<lambda>(entries, cells'', fake''). Inr ((h, k') # entries, cells'', fake'')))))"

definition entry_handle ::
    "string \<Rightarrow> cell list \<Rightarrow> (pvalue \<times> pvalue) list \<Rightarrow> handle \<times> pvalue \<Rightarrow> handle" where
  "entry_handle n cells fake e = (case fst e of
      None \<Rightarrow>
        Some (child_base (\<lambda>c. length (entries_of n c)) cells (length cells)
              + index_of (snd e) (map fst fake))
    | Some i \<Rightarrow>
        if i < length cells then
          Some (child_base (\<lambda>c. length (entries_of n c)) cells i
                + index_of (snd e) (map fst (entries_of n (cells ! i))))
        else None)"

text \<open>
  \<^verbatim>\<open>get_field_index\<close> of a struct type: the index of the one field of that name, or
  nothing (the source's \<open>-1\<close>) when no field or more than one has it.
\<close>

definition get_field_index :: "pa_type \<Rightarrow> string \<Rightarrow> nat option" where
  "get_field_index t n = (case t of
      pa_struct fs \<Rightarrow>
        (case filter (\<lambda>i. field_name (fs ! i) = n) [0..<length fs] of
           [i] \<Rightarrow> Some i
         | _ \<Rightarrow> None)
    | _ \<Rightarrow> None)"

definition struct_field :: "array \<Rightarrow> nat \<Rightarrow> error + array" where
  "struct_field a i = (case a of
      StructArray fs cs valid \<Rightarrow> if i < length cs then Inr (cs ! i) else Inl IndexError
    | _ \<Rightarrow> Inl AttributeError)"

subsection \<open>The extractor\<close>

lemma size_fields_eq: "size d = Suc (size_list size (fields d))"
  by (cases d) simp

lemma size_value_fields:
  "message_type fd = Some d \<Longrightarrow> fields_by_name d n = Inr vt \<Longrightarrow> message_type vt = Some vd
   \<Longrightarrow> 3 + 4 * size_list size (fields vd) < 4 * size fd"
  using size_message_type [of fd d] size_fields_by_name [of d n vt]
    size_message_type [of vt vd] size_fields_eq [of vd]
  by simp

function extract_field ::
    "array \<Rightarrow> field_descriptor \<Rightarrow> handle list \<Rightarrow> cell list \<Rightarrow> error + cell list"
and extract_repeated_field ::
    "array \<Rightarrow> field_descriptor \<Rightarrow> handle list \<Rightarrow> cell list \<Rightarrow> error + cell list"
and extract_map_field ::
    "array \<Rightarrow> field_descriptor \<Rightarrow> handle list \<Rightarrow> cell list \<Rightarrow> error + cell list"
and extract_repeated_message ::
    "array \<Rightarrow> field_descriptor \<Rightarrow> handle list \<Rightarrow> cell list \<Rightarrow> error + cell list"
and extract_struct_field ::
    "array \<Rightarrow> field_descriptor \<Rightarrow> handle list \<Rightarrow> cell list \<Rightarrow> error + cell list"
and extract_array_messages ::
    "array \<Rightarrow> descriptor \<Rightarrow> handle list \<Rightarrow> cell list \<Rightarrow> error + cell list"
and extract_struct_fields ::
    "array \<Rightarrow> field_descriptor list \<Rightarrow> handle list \<Rightarrow> cell list \<Rightarrow> error + cell list"
where
  "extract_field array0 field_descriptor messages cells =
     and_then (prepare_array array0) (\<lambda>array.
       if label field_descriptor = LABEL_REPEATED then
         extract_repeated_field array field_descriptor messages cells
       else
         (case SPECIAL_TYPES (message_type field_descriptor) of
            Some extractor \<Rightarrow>
              assign_loop field_descriptor
                (\<lambda>v m. if scalar_is_valid v
                        then and_then (extractor v) (\<lambda>x.
                             and_then (merge_into m (name field_descriptor) x) (\<lambda>m'.
                               Inr (Some m')))
                        else Inr None)
                (zip messages (scalars array)) cells
          | None \<Rightarrow>
              if ftype field_descriptor = TYPE_MESSAGE
                 \<and> \<not> in_NULLABLE_TYPES (message_type field_descriptor)
              then extract_struct_field array field_descriptor messages cells
              else
                and_then (get_converter field_descriptor) (\<lambda>converter.
                  assign_loop field_descriptor
                    (\<lambda>v m. if scalar_is_valid v
                            then PlainAssigner_call field_descriptor converter
                                   (in_NULLABLE_TYPES (message_type field_descriptor)) v m
                            else Inr None)
                    (zip messages (scalars array)) cells)))"
| "extract_repeated_field array field_descriptor messages cells =
     (if is_custom_field field_descriptor then
        (case message_type field_descriptor of
           None \<Rightarrow> Inl AttributeError
         | Some d \<Rightarrow>
             if map_entry d then extract_map_field array field_descriptor messages cells
             else extract_repeated_message array field_descriptor messages cells)
      else extract_repeated_primitive_assigner array field_descriptor messages cells)"
| "extract_map_field array field_descriptor messages cells =
     (case array of
        MapArray offs valid ks items \<Rightarrow>
          (case message_type field_descriptor of
             None \<Rightarrow> Inl AttributeError
           | Some d \<Rightarrow>
               and_then (fields_by_name d ''value'') (\<lambda>value_type.
                 if is_custom_field value_type then
                   and_then (fields_by_name d ''key'') (\<lambda>key_field.
                   and_then (get_converter key_field) (\<lambda>converter.
                   and_then (OffsetToSize offs) (\<lambda>sizes.
                   (case message_type value_type of
                      None \<Rightarrow> Inl AttributeError
                    | Some vd \<Rightarrow>
                        and_then
                          (reserve_loop field_descriptor (ftype key_field) converter
                             (concrete_class vd)
                             (zip (assigner_targets messages sizes) (scalars ks)) cells [])
                          (\<lambda>(entries, cells', fake).
                             (case items of
                                StructArray fs cs svalid \<Rightarrow>
                                  and_then
                                    (extract_struct_fields items (fields vd)
                                       (map (entry_handle (name field_descriptor) cells' fake)
                                          entries)
                                       (concat (map (\<lambda>c. map (\<lambda>kv. (False, snd kv))
                                            (entries_of (name field_descriptor) c)) cells')
                                        @ map (\<lambda>kv. (False, snd kv)) fake))
                                    (\<lambda>children.
                                       Inr (map (\<lambda>(c, ch).
                                               put_entries (name field_descriptor) c ch)
                                         (zip cells'
                                            (chunks
                                               (map (\<lambda>c. length
                                                  (entries_of (name field_descriptor) c)) cells')
                                               children))))
                              | _ \<Rightarrow> Inl AssertionError))))))
                 else
                   and_then (fields_by_name d ''key'') (\<lambda>key_field.
                   and_then (get_converter key_field) (\<lambda>key_converter.
                   and_then (get_converter value_type) (\<lambda>value_converter.
                   and_then (prepare_array items) (\<lambda>items'.
                   and_then (OffsetToSize offs) (\<lambda>sizes.
                     assign_loop field_descriptor
                       (MapItemAssigner_call field_descriptor key_field value_type
                          key_converter value_converter)
                       (zip (assigner_targets messages sizes)
                          (zip (scalars ks) (scalars items')))
                       cells)))))))
      | _ \<Rightarrow> Inl AssertionError)"
| "extract_repeated_message array field_descriptor messages cells =
     (case array of
        ListArray t offs valid vs \<Rightarrow>
          (case message_type field_descriptor of
             None \<Rightarrow> Inl AttributeError
           | Some d \<Rightarrow>
               and_then (OffsetToSize offs) (\<lambda>sizes.
               and_then
                 (assign_loop field_descriptor
                    (AppendAssigner_call field_descriptor (\<lambda>x. Inr (concrete_class d)))
                    (zip (assigner_targets messages sizes) (scalars vs)) cells)
                 (\<lambda>cells'.
                    and_then
                      (extract_array_messages vs d
                         (RepeatedNestedIterable (name field_descriptor) cells' messages)
                         (concat (map (\<lambda>c. map (Pair False)
                            (elements_of (name field_descriptor) c)) cells')))
                      (\<lambda>children.
                         Inr (map (\<lambda>(c, ch). put_elements (name field_descriptor) c ch)
                           (zip cells'
                              (chunks
                                 (map (\<lambda>c. length (elements_of (name field_descriptor) c))
                                    cells')
                                 children)))))))
      | _ \<Rightarrow> Inl AssertionError)"
| "extract_struct_field array field_descriptor messages cells =
     (case message_type field_descriptor of
        None \<Rightarrow> Inl AttributeError
      | Some d \<Rightarrow>
          and_then
            (extract_array_messages array d
               (OptionalNestedIterable messages (is_valid array))
               (map (child_cell (name field_descriptor)) cells))
            (\<lambda>children.
               Inr (map (\<lambda>(c, c'). put_child (name field_descriptor) c c')
                      (zip cells children))))"
| "extract_array_messages array message_descriptor messages cells =
     (case array of
        StructArray fs cs valid \<Rightarrow>
          extract_struct_fields array (fields message_descriptor) messages cells
      | _ \<Rightarrow> Inl AssertionError)"
| "extract_struct_fields array [] messages cells = Inr cells"
| "extract_struct_fields array (field_descriptor # rest) messages cells =
     and_then
       (case get_field_index (array_type array) (name field_descriptor) of
          None \<Rightarrow> Inr cells
        | Some i \<Rightarrow>
            and_then (struct_field array i) (\<lambda>child.
              extract_field child field_descriptor messages cells))
       (extract_struct_fields array rest messages)"
  by pat_completeness auto
termination
  by (relation "measure (\<lambda>x. case x of
        Inl (Inl (a, fd, hs, cs)) \<Rightarrow> 4 * size fd + 3
      | Inl (Inr (Inl (a, fd, hs, cs))) \<Rightarrow> 4 * size fd + 2
      | Inl (Inr (Inr (a, fd, hs, cs))) \<Rightarrow> 4 * size fd + 1
      | Inr (Inl (Inl (a, fd, hs, cs))) \<Rightarrow> 4 * size fd + 1
      | Inr (Inl (Inr (a, fd, hs, cs))) \<Rightarrow> 4 * size fd + 1
      | Inr (Inr (Inl (a, d, hs, cs))) \<Rightarrow> 4 * size d + 1
      | Inr (Inr (Inr (a, fds, hs, cs))) \<Rightarrow> 4 * size_list size fds + 4)")
    (auto dest: size_message_type simp: size_fields_eq intro: size_value_fields)


text \<open>
  The top level: one fresh message for each row, and the columns looked up by name.
  \<^verbatim>\<open>record_batch[name]\<close> raises \<^verbatim>\<open>KeyError\<close> for a name that two columns have.
\<close>

fun extract_record_batch_fields ::
    "record_batch \<Rightarrow> field_descriptor list \<Rightarrow> handle list \<Rightarrow> cell list
     \<Rightarrow> error + cell list" where
  "extract_record_batch_fields record_batch [] messages cells = Inr cells"
| "extract_record_batch_fields record_batch (field_descriptor # rest) messages cells =
     and_then
       (if name field_descriptor \<in> set (map field_name (schema record_batch)) then
          (case get_field_index (pa_struct (schema record_batch)) (name field_descriptor) of
             None \<Rightarrow> Inl KeyError
           | Some i \<Rightarrow>
               if i < length (columns record_batch)
               then extract_field (columns record_batch ! i) field_descriptor messages cells
               else Inl IndexError)
        else Inr cells)
       (extract_record_batch_fields record_batch rest messages)"

definition extract_record_batch_messages ::
    "record_batch \<Rightarrow> descriptor \<Rightarrow> handle list \<Rightarrow> cell list \<Rightarrow> error + cell list" where
  "extract_record_batch_messages record_batch message_descriptor messages cells =
     extract_record_batch_fields record_batch (fields message_descriptor) messages cells"

definition record_batch_to_messages :: "record_batch \<Rightarrow> descriptor \<Rightarrow> error + pvalue list" where
  "record_batch_to_messages record_batch message_type_DESCRIPTOR =
     and_then
       (extract_record_batch_messages record_batch message_type_DESCRIPTOR
          (map Some [0..<num_rows record_batch])
          (replicate (num_rows record_batch) (False, concrete_class message_type_DESCRIPTOR)))
       (\<lambda>cells. Inr (map snd cells))"

section \<open>Definitions for the properties\<close>

declare proto_field_to_array.simps [simp del] repeated_proto_to_array.simps [simp del]
  proto_map_to_array.simps [simp del] message_to_array.simps [simp del]

declare extract_field.simps [simp del] extract_repeated_field.simps [simp del]
  extract_map_field.simps [simp del] extract_repeated_message.simps [simp del]
  extract_struct_field.simps [simp del] extract_array_messages.simps [simp del]

text \<open>
  The offsets of every list and map array inside a column of \<open>n\<close> rows: one more than
  \<open>n\<close>, starting at zero, never decreasing and ending at the length of the child.
\<close>

fun offsets_well_formed :: "nat \<Rightarrow> array \<Rightarrow> bool" where
  "offsets_well_formed n (Array t vs) = True"
| "offsets_well_formed n (ListArray t os valid vs) =
     (length os = n + 1 \<and> hd os = 0 \<and> sorted os \<and> last os = int (array_len vs)
      \<and> offsets_well_formed (array_len vs) vs)"
| "offsets_well_formed n (MapArray os valid ks vs) =
     (length os = n + 1 \<and> hd os = 0 \<and> sorted os \<and> last os = int (array_len ks)
      \<and> array_len vs = array_len ks
      \<and> offsets_well_formed (array_len ks) ks \<and> offsets_well_formed (array_len vs) vs)"
| "offsets_well_formed n (StructArray fs cs valid) = list_all (offsets_well_formed n) cs"

text \<open>Every struct array inside an array has children of its own length.\<close>

fun struct_lengths :: "array \<Rightarrow> bool" where
  "struct_lengths (Array t vs) = True"
| "struct_lengths (ListArray t os valid vs) = struct_lengths vs"
| "struct_lengths (MapArray os valid ks vs) = (struct_lengths ks \<and> struct_lengths vs)"
| "struct_lengths (StructArray fs cs valid) =
     list_all (\<lambda>c. array_len c = length valid \<and> struct_lengths c) cs"

definition rows :: "'a iterable \<Rightarrow> nat" where
  "rows records = (case records of Inl e \<Rightarrow> 0 | Inr rs \<Rightarrow> length rs)"

definition built_ok :: "'a iterable \<Rightarrow> array \<Rightarrow> bool" where
  "built_ok records a =
     (offsets_well_formed (array_len a) a \<and> struct_lengths a
      \<and> (array_len a = rows records \<or> array_len a = 0))"

definition has_rows :: "'a iterable \<Rightarrow> array \<Rightarrow> bool" where
  "has_rows records a = (\<exists>rs. records = Inr rs \<and> array_len a = length rs)"

text \<open>
  A struct array takes its length from its children, so a message type fixes the number
  of rows of its struct only through a field whose column has one element for each
  message: any field but a singular plain sub-message, or a singular plain sub-message
  whose type has such a field.
\<close>

fun fixes_rows :: "descriptor \<Rightarrow> bool"
and field_fixes_rows :: "field_descriptor \<Rightarrow> bool" where
  "fixes_rows (Descriptor n fs me) = list_ex field_fixes_rows fs"
| "field_fixes_rows (FieldDescriptor n t l mt et) =
     (l = LABEL_REPEATED \<or>
      (case mt of
         None \<Rightarrow> True
       | Some d \<Rightarrow>
           map_entry d \<or> t \<noteq> TYPE_MESSAGE
           \<or> PROTO_DESCRIPTOR_TO_ARROW_CONVERTER (Some d) \<noteq> None \<or> fixes_rows d))"


subsection \<open>Handles of a level\<close>

text \<open>
  The handles of the rows of one level in order: row \<open>k\<close> names cell \<open>k\<close>, or the throw-away
  message where the bit is clear.
\<close>

primrec masked_handles :: "nat \<Rightarrow> bool list \<Rightarrow> handle list" where
  "masked_handles k [] = []"
| "masked_handles k (b # bs) = (if b then Some k else None) # masked_handles (Suc k) bs"

text \<open>
  What a loop of writes does to the cell of a row, and that the write of the row raises
  nothing: \<open>b\<close> tells whether the row's handle names the cell or the throw-away message.
\<close>

definition row_write ::
    "('s \<Rightarrow> pvalue \<Rightarrow> error + pvalue option) \<Rightarrow> cell \<times> bool \<times> 's \<Rightarrow> cell" where
  "row_write call r = (case r of (c, b, x) \<Rightarrow>
     if b then (case call x (snd c) of Inr (Some m') \<Rightarrow> (True, m') | _ \<Rightarrow> c) else c)"

definition row_ok ::
    "field_descriptor \<Rightarrow> ('s \<Rightarrow> pvalue \<Rightarrow> error + pvalue option) \<Rightarrow> cell \<times> bool \<times> 's \<Rightarrow> bool" where
  "row_ok fd call r = (case r of (c, b, x) \<Rightarrow>
     (case call x (if b then snd c else Message [(name fd, new_slot fd)]) of
        Inr y \<Rightarrow> True | Inl e \<Rightarrow> False))"

subsection \<open>The column of a field\<close>

text \<open>The array that the loop of \<^const>\<open>message_fields_to_arrays\<close> builds for one field.\<close>

definition field_column ::
    "pvalue iterable \<Rightarrow> field_descriptor \<Rightarrow> ProtarrowConfig \<Rightarrow> error + array" where
  "field_column records field config =
     (if is_map_field field then
        proto_map_to_array (NestedIterable records (\<lambda>r. getattr r (name field))) field config
      else if label field = LABEL_REPEATED then
        repeated_proto_to_array (NestedIterable records (\<lambda>r. getattr r (name field)))
          field config
      else
        and_then (proto_field_validity_mask records field) (\<lambda>m.
          proto_field_to_array (NestedIterable records (\<lambda>r. getattr r (name field)))
            field m config))"

text \<open>
  A message holds a wrapper in a field when the field's slot is a sub-message with a
  \<^verbatim>\<open>value\<close> that is not \<^verbatim>\<open>None\<close>, as every message of a wrapper field does; its presence
  bit and its value.
\<close>

definition holds_wrapper :: "string \<Rightarrow> pvalue \<Rightarrow> bool" where
  "holds_wrapper n m = (case get_slot m n of
      Some (Submessage p w) \<Rightarrow> (case getattr w ''value'' of Inr v \<Rightarrow> v \<noteq> PyNone | Inl e \<Rightarrow> False)
    | _ \<Rightarrow> False)"

definition wrapper_present :: "string \<Rightarrow> pvalue \<Rightarrow> bool" where
  "wrapper_present n m = (case get_slot m n of Some (Submessage p w) \<Rightarrow> p | _ \<Rightarrow> False)"

definition wrapper_value :: "string \<Rightarrow> pvalue \<Rightarrow> pvalue" where
  "wrapper_value n m = (case get_slot m n of
      Some (Submessage p w) \<Rightarrow> (case getattr w ''value'' of Inr v \<Rightarrow> v | Inl e \<Rightarrow> PyNone)
    | _ \<Rightarrow> PyNone)"

subsection \<open>The rows of a map column\<close>

text \<open>The writes of the rows of one message, one after the other, into its cell.\<close>

fun write_all :: "('s \<Rightarrow> pvalue \<Rightarrow> error + pvalue option) \<Rightarrow> 's list \<Rightarrow> cell \<Rightarrow> error + cell" where
  "write_all call [] c = Inr c"
| "write_all call (x # xs) c =
     and_then (call x (snd c))
       (\<lambda>r. write_all call xs (case r of None \<Rightarrow> c | Some m' \<Rightarrow> (True, m')))"

text \<open>The keys of a list that are not among \<open>seen\<close>, each once, in the order they first occur.\<close>

fun first_keys :: "'a list \<Rightarrow> 'a list \<Rightarrow> 'a list" where
  "first_keys seen [] = []"
| "first_keys seen (k # ks) =
     (if k \<in> set seen then first_keys seen ks else k # first_keys (seen @ [k]) ks)"

text \<open>The cells after the reservation of the keys of each row.\<close>

definition reserved :: "string \<Rightarrow> pvalue \<Rightarrow> cell \<Rightarrow> pvalue list \<Rightarrow> cell" where
  "reserved n dflt c ks =
     (if ks = [] then c
      else (True, set_slot (snd c) n (MapContainer (map (\<lambda>k. (k, dflt)) (first_keys [] ks)))))"

subsection \<open>Example schemas and messages\<close>

definition Example_Inner :: descriptor where
  "Example_Inner = Descriptor ''Inner'' [scalar_field ''x'' TYPE_INT32,
     FieldDescriptor ''ys'' TYPE_INT64 LABEL_REPEATED None None] False"

definition Example_Color :: enum_descriptor where
  "Example_Color = [(''RED'', 0), (''GREEN'', 1), (''BLUE'', 2)]"

definition Example_StrInnerEntry :: descriptor where
  "Example_StrInnerEntry = Descriptor ''Outer.StrInnerEntry''
     [scalar_field ''key'' TYPE_STRING,
      FieldDescriptor ''value'' TYPE_MESSAGE LABEL_OPTIONAL (Some Example_Inner) None] True"

definition Example_StrIntEntry :: descriptor where
  "Example_StrIntEntry = Descriptor ''Outer.StrIntEntry''
     [scalar_field ''key'' TYPE_STRING, scalar_field ''value'' TYPE_INT32] True"

definition Example_Outer :: descriptor where
  "Example_Outer = Descriptor ''Outer''
    [scalar_field ''a'' TYPE_INT32,
     FieldDescriptor ''color'' TYPE_ENUM LABEL_OPTIONAL None (Some Example_Color),
     FieldDescriptor ''inner'' TYPE_MESSAGE LABEL_OPTIONAL (Some Example_Inner) None,
     FieldDescriptor ''w'' TYPE_MESSAGE LABEL_OPTIONAL (Some Int32Value_DESCRIPTOR) None,
     FieldDescriptor ''ts'' TYPE_MESSAGE LABEL_OPTIONAL (Some Timestamp_DESCRIPTOR) None,
     FieldDescriptor ''tod'' TYPE_MESSAGE LABEL_OPTIONAL (Some TimeOfDay_DESCRIPTOR) None,
     FieldDescriptor ''date'' TYPE_MESSAGE LABEL_OPTIONAL (Some Date_DESCRIPTOR) None,
     FieldDescriptor ''inners'' TYPE_MESSAGE LABEL_REPEATED (Some Example_Inner) None,
     FieldDescriptor ''m'' TYPE_MESSAGE LABEL_REPEATED (Some Example_StrInnerEntry) None,
     FieldDescriptor ''si'' TYPE_MESSAGE LABEL_REPEATED (Some Example_StrIntEntry) None,
     FieldDescriptor ''colors'' TYPE_ENUM LABEL_REPEATED None (Some Example_Color),
     FieldDescriptor ''tss'' TYPE_MESSAGE LABEL_REPEATED (Some Timestamp_DESCRIPTOR) None]
    False"

definition example_inner :: "int \<Rightarrow> int list \<Rightarrow> pvalue" where
  "example_inner x ys =
     Message [(''x'', PyInt x), (''ys'', RepeatedContainer (map PyInt ys))]"

definition example_message :: pvalue where
  "example_message = Message
    [(''a'', PyInt 5), (''color'', PyInt 2),
     (''inner'', Submessage True (example_inner 7 [1, 2])),
     (''w'', Submessage True (Message [(''value'', PyInt 0)])),
     (''ts'', Submessage True (Timestamp 1 123456789)),
     (''tod'', Submessage True (TimeOfDay 23 59 58 999)),
     (''date'', Submessage True (Date 2020 2 29)),
     (''inners'', RepeatedContainer [example_inner 1 [], example_inner 0 [4]]),
     (''m'', MapContainer [(PyStr ''k'', example_inner 5 [9]), (PyStr ''j'', example_inner 0 [])]),
     (''si'', MapContainer [(PyStr ''a'', PyInt 1), (PyStr ''b'', PyInt 2)]),
     (''colors'', RepeatedContainer [PyInt 1, PyInt 0]),
     (''tss'', RepeatedContainer [Timestamp 0 0, Timestamp (- 1) 5])]"

definition example_batch :: record_batch where
  "example_batch = RecordBatch
    [pa_field ''a'' pa_int32 False, pa_field ''color'' pa_binary False,
     pa_field ''inner'' (pa_struct [pa_field ''x'' pa_int32 False,
        pa_field ''ys'' (pa_list (pa_field ''item'' pa_int64 False)) True]) True,
     pa_field ''w'' pa_int32 True,
     pa_field ''ts'' (pa_timestamp Unit_ns ''UTC'') True,
     pa_field ''tod'' (pa_time64 Unit_ns) True,
     pa_field ''date'' pa_date32 True,
     pa_field ''inners'' (pa_list (pa_field ''item'' (pa_struct [pa_field ''x'' pa_int32 False,
        pa_field ''ys'' (pa_list (pa_field ''item'' pa_int64 False)) True]) True)) True,
     pa_field ''m'' (pa_map pa_string (pa_struct [pa_field ''x'' pa_int32 False,
        pa_field ''ys'' (pa_list (pa_field ''item'' pa_int64 False)) True])) True,
     pa_field ''si'' (pa_map pa_string pa_int32) True,
     pa_field ''colors'' (pa_list (pa_field ''item'' pa_binary False)) True,
     pa_field ''tss'' (pa_list (pa_field ''item'' (pa_timestamp Unit_ns ''UTC'') True)) True]
    [Array pa_int32 [PyInt 5, PyInt 0],
     Array pa_binary [PyBytes ''BLUE'', PyBytes ''RED''],
     StructArray [pa_field ''x'' pa_int32 False,
        pa_field ''ys'' (pa_list (pa_field ''item'' pa_int64 False)) True]
       [Array pa_int32 [PyInt 7, PyInt 0],
        ListArray (pa_list (pa_field ''item'' pa_int64 False)) [0, 2, 2] [True, True]
          (Array pa_int64 [PyInt 1, PyInt 2])]
       [True, False],
     Array pa_int32 [PyInt 0, PyNone],
     Array (pa_timestamp Unit_ns ''UTC'') [PyInt 1123456789, PyNone],
     Array (pa_time64 Unit_ns) [PyInt 86398000000999, PyNone],
     Array pa_date32 [PyDate 2020 2 29, PyNone],
     ListArray (pa_list (pa_field ''item'' (pa_struct [pa_field ''x'' pa_int32 False,
          pa_field ''ys'' (pa_list (pa_field ''item'' pa_int64 False)) True]) True))
       [0, 2, 2] [True, True]
       (StructArray [pa_field ''x'' pa_int32 False,
          pa_field ''ys'' (pa_list (pa_field ''item'' pa_int64 False)) True]
         [Array pa_int32 [PyInt 1, PyInt 0],
          ListArray (pa_list (pa_field ''item'' pa_int64 False)) [0, 0, 1] [True, True]
            (Array pa_int64 [PyInt 4])]
         [True, True]),
     MapArray [0, 2, 2] [True, True] (Array pa_string [PyStr ''k'', PyStr ''j''])
       (StructArray [pa_field ''x'' pa_int32 False,
          pa_field ''ys'' (pa_list (pa_field ''item'' pa_int64 False)) True]
         [Array pa_int32 [PyInt 5, PyInt 0],
          ListArray (pa_list (pa_field ''item'' pa_int64 False)) [0, 1, 1] [True, True]
            (Array pa_int64 [PyInt 9])]
         [True, True]),
     MapArray [0, 2, 2] [True, True] (Array pa_string [PyStr ''a'', PyStr ''b''])
       (Array pa_int32 [PyInt 1, PyInt 2]),
     ListArray (pa_list (pa_field ''item'' pa_binary False)) [0, 2, 2] [True, True]
       (Array pa_binary [PyBytes ''GREEN'', PyBytes ''RED'']),
     ListArray (pa_list (pa_field ''item'' (pa_timestamp Unit_ns ''UTC'') True))
       [0, 2, 2] [True, True]
       (Array (pa_timestamp Unit_ns ''UTC'') [PyInt 0, PyInt (- 999999995)])]
    2"


definition map_message_type :: descriptor where
  "map_message_type = Descriptor ''HasMap''
     [FieldDescriptor ''si'' TYPE_MESSAGE LABEL_REPEATED (Some Example_StrIntEntry) None] False"

definition Empty_DESCRIPTOR :: descriptor where
  "Empty_DESCRIPTOR = Descriptor ''google.protobuf.Empty'' [] False"

definition enum_message_type :: descriptor where
  "enum_message_type = Descriptor ''HasEnums''
     [FieldDescriptor ''color'' TYPE_ENUM LABEL_OPTIONAL None (Some Example_Color),
      FieldDescriptor ''colors'' TYPE_ENUM LABEL_REPEATED None (Some Example_Color)] False"

definition inner_map_message_type :: descriptor where
  "inner_map_message_type = Descriptor ''HasInnerMap''
     [FieldDescriptor ''m'' TYPE_MESSAGE LABEL_REPEATED (Some Example_StrInnerEntry) None] False"
section \<open>Properties of the scalar codecs\<close>

lemma and_then_eq_Inr: "and_then m f = Inr y \<longleftrightarrow> (\<exists>x. m = Inr x \<and> f x = Inr y)"
  by (cases m) simp_all

lemma getattr_Message [simp]:
  "getattr (Message fs) n = (case map_of fs n of None \<Rightarrow> Inl AttributeError
      | Some (Submessage p v) \<Rightarrow> Inr v | Some v \<Rightarrow> Inr v)"
  by (simp add: getattr_def)

lemma get_int_TimeOfDay [simp]:
  "get_int (TimeOfDay h m s n) ''hours'' = Inr h"
  "get_int (TimeOfDay h m s n) ''minutes'' = Inr m"
  "get_int (TimeOfDay h m s n) ''seconds'' = Inr s"
  "get_int (TimeOfDay h m s n) ''nanos'' = Inr n"
  by (simp_all add: get_int_def TimeOfDay_def)

lemma time_of_day_to_nanos_eq:
  "time_of_day_to_nanos (TimeOfDay h m s n) =
     Inr (((h * 60 + m) * 60 + s) * 1000000000 + n)"
  by (simp add: time_of_day_to_nanos_def)

lemma tod_split:
  fixes h m s n :: int
  assumes "0 \<le> m" "m < 60" "0 \<le> s" "s < 60" "0 \<le> n" "n < 1000000000"
  defines "t \<equiv> ((h * 60 + m) * 60 + s) * 1000000000 + n"
  shows "t div 3600000000000 = h \<and> (t div 60000000000) mod 60 = m
       \<and> (t div 1000000000) mod 60 = s \<and> t mod 1000000000 = n"
proof -
  have n1: "t mod 1000000000 = n"
    by (rule int_mod_pos_eq [where q = "(h * 60 + m) * 60 + s"])
       (use assms(5,6) in \<open>simp_all add: t_def\<close>)
  have n2: "t div 1000000000 = (h * 60 + m) * 60 + s"
    by (rule int_div_pos_eq [where r = n]) (use assms(5,6) in \<open>simp_all add: t_def\<close>)
  have s1: "((h * 60 + m) * 60 + s) mod 60 = s"
    by (rule int_mod_pos_eq [where q = "h * 60 + m"]) (use assms(3,4) in simp_all)
  have c: "t div 60000000000 = h * 60 + m"
    by (rule int_div_pos_eq [where r = "s * 1000000000 + n"])
       (use assms(3-6) in \<open>simp_all add: t_def algebra_simps\<close>)
  have m1: "(h * 60 + m) mod 60 = m"
    by (rule int_mod_pos_eq [where q = h]) (use assms(1,2) in simp_all)
  have h1: "t div 3600000000000 = h"
    by (rule int_div_pos_eq [where r = "m * 60000000000 + s * 1000000000 + n"])
       (use assms in \<open>simp_all add: t_def algebra_simps\<close>)
  show ?thesis using n1 n2 s1 c m1 h1 by simp
qed

text \<open>
  Claim C7. The encoder maps a \<^verbatim>\<open>TimeOfDay\<close> to
  \<open>((hours * 60 + minutes) * 60 + seconds) * 10^9 + nanos\<close>; the decoder splits a count
  \<open>t\<close> of nanoseconds into \<open>t div 3600000000000\<close> hours, \<open>t div 60000000000 mod 60\<close>
  minutes, \<open>t div 1000000000 mod 60\<close> seconds and \<open>t mod 1000000000\<close> nanos. For hours
  in \<open>[0, 24)\<close>, minutes and seconds in \<open>[0, 60)\<close> and nanos in \<open>[0, 10^9)\<close>, decoding
  the encoded value gives the \<^verbatim>\<open>TimeOfDay\<close> back.
\<close>

theorem time_of_day_codec_round_trip:
  assumes "0 \<le> h" "h < 24" "0 \<le> m" "m < 60" "0 \<le> s" "s < 60" "0 \<le> n" "n < 1000000000"
  shows "time_of_day_to_nanos (TimeOfDay h m s n) =
           Inr (((h * 60 + m) * 60 + s) * 1000000000 + n)
       \<and> time_of_day_scalar_to_proto
           (pa_int64, PyInt (((h * 60 + m) * 60 + s) * 1000000000 + n)) =
           Inr (TimeOfDay
             ((((h * 60 + m) * 60 + s) * 1000000000 + n) div 3600000000000)
             (((((h * 60 + m) * 60 + s) * 1000000000 + n) div 60000000000) mod 60)
             (((((h * 60 + m) * 60 + s) * 1000000000 + n) div 1000000000) mod 60)
             ((((h * 60 + m) * 60 + s) * 1000000000 + n) mod 1000000000))
       \<and> and_then (time_of_day_to_nanos (TimeOfDay h m s n))
           (\<lambda>t. time_of_day_scalar_to_proto (pa_int64, PyInt t)) = Inr (TimeOfDay h m s n)"
proof -
  have fit: "int_fits 32 True (PyInt h)"
    using assms(1,2) by (simp add: int_fits_def)
  show ?thesis
    using tod_split [OF assms(3-8), of h] fit
    by (simp add: time_of_day_to_nanos_eq time_of_day_scalar_to_proto_def as_py_def)
qed

theorem time_of_day_codec_round_trip_witness:
  "time_of_day_to_nanos (TimeOfDay 23 59 58 999999999) =
     Inr (((23 * 60 + 59) * 60 + 58) * 1000000000 + 999999999)
   \<and> time_of_day_scalar_to_proto
       (pa_int64, PyInt (((23 * 60 + 59) * 60 + 58) * 1000000000 + 999999999)) =
       Inr (TimeOfDay
         ((((23 * 60 + 59) * 60 + 58) * 1000000000 + 999999999) div 3600000000000)
         (((((23 * 60 + 59) * 60 + 58) * 1000000000 + 999999999) div 60000000000) mod 60)
         (((((23 * 60 + 59) * 60 + 58) * 1000000000 + 999999999) div 1000000000) mod 60)
         ((((23 * 60 + 59) * 60 + 58) * 1000000000 + 999999999) mod 1000000000))
   \<and> and_then (time_of_day_to_nanos (TimeOfDay 23 59 58 999999999))
        (\<lambda>t. time_of_day_scalar_to_proto (pa_int64, PyInt t))
      = Inr (TimeOfDay 23 59 58 999999999)"
  by (rule time_of_day_codec_round_trip) simp_all


lemmas descriptor_defs =
  Date_DESCRIPTOR_def Timestamp_DESCRIPTOR_def TimeOfDay_DESCRIPTOR_def
  BoolValue_DESCRIPTOR_def BytesValue_DESCRIPTOR_def DoubleValue_DESCRIPTOR_def
  FloatValue_DESCRIPTOR_def Int32Value_DESCRIPTOR_def Int64Value_DESCRIPTOR_def
  StringValue_DESCRIPTOR_def UInt32Value_DESCRIPTOR_def UInt64Value_DESCRIPTOR_def
  wrapper_descriptor_def scalar_field_def

lemma Timestamp_tables [simp]:
  "PROTO_DESCRIPTOR_TO_ARROW_CONVERTER (Some Timestamp_DESCRIPTOR) =
     Some (\<lambda>x. and_then (ToNanoseconds x) (\<lambda>n. Inr (PyInt n)))"
  "PROTO_DESCRIPTOR_TO_PYARROW Timestamp_DESCRIPTOR = Some (pa_timestamp Unit_ns ''UTC'')"
  by (simp_all add: PROTO_DESCRIPTOR_TO_ARROW_CONVERTER_def PROTO_DESCRIPTOR_TO_PYARROW_def
        descriptor_defs)

lemma ToNanoseconds_Timestamp [simp]:
  "ToNanoseconds (Timestamp s n) = Inr (s * 1000000000 + n)"
  by (simp add: ToNanoseconds_def get_int_def Timestamp_def)

lemma traverse_map_Inr:
  "(\<And>x. x \<in> set xs \<Longrightarrow> f x = Inr (g x)) \<Longrightarrow> traverse f xs = Inr (map g xs)"
  by (induction xs) simp_all


lemma Timestamp_not_None [simp]: "Timestamp s n \<noteq> PyNone" "PyNone \<noteq> Timestamp s n"
  by (simp_all add: Timestamp_def)









section \<open>Properties of the builder\<close>

lemma rows_simps [simp]: "rows (Inl e) = 0" "rows (Inr rs) = length rs"
  by (simp_all add: rows_def)

lemma traverse_length: "traverse f xs = Inr ys \<Longrightarrow> length ys = length xs"
  by (induction xs arbitrary: ys) (auto simp: and_then_eq_Inr)

lemma convert_loop_length:
  "convert_loop c nv msk i rs = Inr vs \<Longrightarrow> length vs = length rs"
  by (induction rs arbitrary: i vs) (auto simp: and_then_eq_Inr)

lemma field_values_to_array_built:
  "field_values_to_array records c t nv msk = Inr a \<Longrightarrow> built_ok records a"
  by (auto simp: field_values_to_array_def and_then_eq_Inr pa_array_def built_ok_def
      dest: convert_loop_length split: if_splits)

lemma rows_NestedIterable: "rows (NestedIterable records g) = rows records
    \<or> rows (NestedIterable records g) = 0"
  by (cases records; cases "NestedIterable records g")
     (auto simp: NestedIterable_def dest: traverse_length)

lemma py_len_nonneg: "py_len r = Inr n \<Longrightarrow> 0 \<le> n"
  by (auto simp: py_len_def split: pvalue.splits)

lemma clean_offsets_length [simp]: "length (clean_offsets os) = length os"
  by (induction os rule: clean_offsets.induct) simp_all

lemma clean_offsets_Nil_iff [simp]: "clean_offsets os = [] \<longleftrightarrow> os = []"
  by (metis clean_offsets_length length_0_conv)

lemma sorted_hd_Cons: "sorted xs \<Longrightarrow> xs \<noteq> [] \<Longrightarrow> k \<le> hd xs \<Longrightarrow> sorted (k # xs)"
  by (cases xs) auto

lemma get_offsets_loop_shape:
  "get_offsets_loop k rs = Inr os \<Longrightarrow>
     length os = Suc (length rs) \<and> last os \<noteq> None \<and> hd (clean_offsets os) = k
     \<and> sorted (clean_offsets os)"
proof (induction rs arbitrary: k os)
  case Nil
  then show ?case by auto
next
  case (Cons r rs)
  show ?case
  proof (cases "r = PyNone")
    case True
    with Cons.prems obtain os' where os': "get_offsets_loop k rs = Inr os'" "os = None # os'"
      by (auto simp: and_then_eq_Inr)
    from Cons.IH [OF os'(1)] have ih: "length os' = Suc (length rs)" "last os' \<noteq> None"
      "hd (clean_offsets os') = k" "sorted (clean_offsets os')" by auto
    have ne: "clean_offsets os' \<noteq> []" using ih(1) by (metis clean_offsets_length length_0_conv nat.distinct(1))
    then obtain y ys where y: "clean_offsets os' = y # ys" by (cases "clean_offsets os'") auto
    with ih have "y = k" by simp
    with y ih os' show ?thesis by (cases os') auto
  next
    case False
    with Cons.prems obtain n os' where os': "py_len r = Inr n"
        "get_offsets_loop (k + n) rs = Inr os'" "os = Some k # os'"
      by (auto simp: and_then_eq_Inr)
    from Cons.IH [OF os'(2)] have ih: "length os' = Suc (length rs)" "last os' \<noteq> None"
      "hd (clean_offsets os') = k + n" "sorted (clean_offsets os')" by auto
    have ne: "clean_offsets os' \<noteq> []" using ih(1) by (metis clean_offsets_length length_0_conv nat.distinct(1))
    have "sorted (k # clean_offsets os')"
      using ih ne py_len_nonneg [OF os'(1)] by (intro sorted_hd_Cons) auto
    with ih os' show ?thesis by (cases os') auto
  qed
qed

lemma last_clean_offsets:
  "last os \<noteq> None \<Longrightarrow> os \<noteq> [] \<Longrightarrow> last (clean_offsets os) = the (last os)"
  by (induction os rule: clean_offsets.induct) (auto split: list.splits)

lemma get_offsets_loop_last:
  "get_offsets_loop k rs = Inr os \<Longrightarrow> traverse it rs = Inr xss
   \<Longrightarrow> (\<And>r xs. r \<in> set rs \<Longrightarrow> it r = Inr xs \<Longrightarrow> py_len r = Inr (int (length xs)))
   \<Longrightarrow> (\<And>r xs. r \<in> set rs \<Longrightarrow> it r = Inr xs \<Longrightarrow> r \<noteq> PyNone)
   \<Longrightarrow> the (last os) = k + int (length (concat xss))"
proof (induction rs arbitrary: k os xss)
  case Nil
  then show ?case by auto
next
  case (Cons r rs)
  from Cons.prems(2) obtain xs xss' where x: "it r = Inr xs" "traverse it rs = Inr xss'"
      "xss = xs # xss'"
    by (auto simp: and_then_eq_Inr)
  have rn: "r \<noteq> PyNone" using Cons.prems(4) [of r xs] x by simp
  have len: "py_len r = Inr (int (length xs))" using Cons.prems(3) [of r xs] x by simp
  with rn Cons.prems(1) obtain os' where os':
      "get_offsets_loop (k + int (length xs)) rs = Inr os'" "os = Some k # os'"
    by (auto simp: and_then_eq_Inr)
  have "the (last os') = k + int (length xs) + int (length (concat xss'))"
    using Cons.IH [OF os'(1) x(2)] Cons.prems(3,4) by auto
  moreover have "os' \<noteq> []" using get_offsets_loop_shape [OF os'(1)] by auto
  ultimately show ?case using os' x by simp
qed


lemma py_iter_len: "py_iter r = Inr xs \<Longrightarrow> py_len r = Inr (int (length xs)) \<and> r \<noteq> PyNone"
  by (auto simp: py_iter_def py_len_def split: pvalue.splits)

lemma keys_len: "keys r = Inr xs \<Longrightarrow> py_len r = Inr (int (length xs)) \<and> r \<noteq> PyNone"
  by (auto simp: keys_def py_len_def split: pvalue.splits)

lemma span_last:
  assumes os: "get_offsets records = Inr os"
    and span: "offsets_span_ok (clean_offsets os) n"
    and flat: "flat = and_then records (\<lambda>ps. and_then (traverse it ps) (\<lambda>xss. Inr (concat xss)))"
    and it: "\<And>r xs. it r = Inr xs \<Longrightarrow> py_len r = Inr (int (length xs)) \<and> r \<noteq> PyNone"
    and n: "n = rows flat \<or> n = 0"
  shows "last (clean_offsets os) = int n \<and> hd (clean_offsets os) = 0
       \<and> sorted (clean_offsets os) \<and> length os = Suc (rows records)"
proof -
  from os obtain rs where rs: "records = Inr rs" "get_offsets_loop 0 rs = Inr os"
    by (auto simp: get_offsets_def and_then_eq_Inr)
  note sh = get_offsets_loop_shape [OF rs(2)]
  have ne: "os \<noteq> []" using sh by auto
  have lastc: "last (clean_offsets os) = the (last os)"
    using sh ne by (intro last_clean_offsets) auto
  have le: "last (clean_offsets os) \<le> int n" "0 \<le> last (clean_offsets os)"
    using span sh by (auto simp: offsets_span_ok_def)
  have "last (clean_offsets os) = int n"
  proof (cases "traverse it rs")
    case (Inl e)
    then have "rows flat = 0" using flat rs by simp
    with n le show ?thesis by auto
  next
    case (Inr xss)
    then have "rows flat = length (concat xss)" using flat rs by simp
    moreover have "the (last os) = 0 + int (length (concat xss))"
      using it by (intro get_offsets_loop_last [OF rs(2) Inr]) auto
    ultimately show ?thesis using n le lastc by auto
  qed
  then show ?thesis using sh rs by auto
qed

lemma ListArray_from_arrays_Inr:
  "ListArray_from_arrays os vs t = Inr a \<Longrightarrow>
     a = ListArray t (clean_offsets os) (offsets_validity os) vs
     \<and> offsets_span_ok (clean_offsets os) (array_len vs)"
  by (auto simp: ListArray_from_arrays_def split: if_splits)

lemma MapArray_from_arrays_Inr:
  "MapArray_from_arrays os ks vs = Inr a \<Longrightarrow>
     a = MapArray (clean_offsets os) (offsets_validity os) ks vs
     \<and> offsets_span_ok (clean_offsets os) (array_len ks) \<and> array_len ks = array_len vs"
  by (auto simp: MapArray_from_arrays_def split: if_splits)

lemma StructArray_from_arrays_Inr:
  "StructArray_from_arrays arrays fs msk = Inr a \<Longrightarrow>
     (\<exists>valid. a = StructArray fs arrays valid
        \<and> (\<forall>c \<in> set arrays. array_len c = length valid)
        \<and> (arrays = [] \<longrightarrow> valid = [])
        \<and> (arrays \<noteq> [] \<longrightarrow> length valid = array_len (hd arrays)))"
  by (cases arrays)
     (auto simp: StructArray_from_arrays_def list_all_iff split: if_splits option.splits)

lemma builder_invariant:
  "(\<forall>a. proto_field_to_array records field validity_mask config = Inr a \<longrightarrow> built_ok records a)"
  "(\<forall>a. repeated_proto_to_array records1 field1 config1 = Inr a \<longrightarrow> built_ok records1 a)"
  "(\<forall>a. proto_map_to_array records2 field2 config2 = Inr a \<longrightarrow> built_ok records2 a)"
  "(\<forall>a. message_to_array records3 descriptor3 validity_mask3 config3 = Inr a
      \<longrightarrow> built_ok records3 a)"
  "(\<forall>cols. message_fields_to_arrays records4 fs4 config4 = Inr cols
      \<longrightarrow> (\<forall>c \<in> set cols. built_ok records4 (fst c)))"
proof (induction records field validity_mask config and records1 field1 config1
    and records2 field2 config2 and records3 descriptor3 validity_mask3 config3
    and records4 fs4 config4
    rule: proto_field_to_array_repeated_proto_to_array_proto_map_to_array_message_to_array_message_fields_to_arrays.induct)
  case (1 records field validity_mask config)
  show ?case
  proof (intro allI impI)
    fix a assume a: "proto_field_to_array records field validity_mask config = Inr a"
    show "built_ok records a"
      using a "1.IH"
      by (auto simp: proto_field_to_array.simps [of records field] and_then_eq_Inr
          split: if_splits option.splits dest: field_values_to_array_built)
  qed
next
  case (2 records field config)
  show ?case
  proof (intro allI impI)
    fix a assume a: "repeated_proto_to_array records field config = Inr a"
    then obtain os child where os: "get_offsets records = Inr os"
      and child: "proto_field_to_array (FlattenedIterable records) field None config = Inr child"
      and la: "ListArray_from_arrays os child
         (pa_list (pa_field ''item'' (array_type child) (ftype field = TYPE_MESSAGE))) = Inr a"
      by (auto simp: repeated_proto_to_array.simps and_then_eq_Inr)
    from "2.IH" [OF os] child have ch: "built_ok (FlattenedIterable records) child" by blast
    note la' = ListArray_from_arrays_Inr [OF la]
    have "last (clean_offsets os) = int (array_len child) \<and> hd (clean_offsets os) = 0
       \<and> sorted (clean_offsets os) \<and> length os = Suc (rows records)"
      using ch la'
      by (intro span_last [OF os _ _ py_iter_len, where flat = "FlattenedIterable records"])
         (auto simp: FlattenedIterable_def built_ok_def)
    with la' ch show "built_ok records a" by (auto simp: built_ok_def)
  qed
next
  case (3 records field config)
  show ?case
  proof (intro allI impI)
    fix a assume a: "proto_map_to_array records field config = Inr a"
    then obtain d kf vf os ks vs where d: "message_type field = Some d"
      and kf: "fields_by_name d ''key'' = Inr kf" and vf: "fields_by_name d ''value'' = Inr vf"
      and os: "get_offsets records = Inr os"
      and ks: "proto_field_to_array (MapKeyIterable records) kf None config = Inr ks"
      and vs: "proto_field_to_array (MapValueIterable records) vf None config = Inr vs"
      and ma: "MapArray_from_arrays os ks vs = Inr a"
      by (auto simp: proto_map_to_array.simps and_then_eq_Inr split: option.splits)
    from "3.IH"(1) [OF d kf vf os] ks have k: "built_ok (MapKeyIterable records) ks" by blast
    from "3.IH"(2) [OF d kf vf os ks] vs have v: "built_ok (MapValueIterable records) vs"
      by blast
    note ma' = MapArray_from_arrays_Inr [OF ma]
    have "last (clean_offsets os) = int (array_len ks) \<and> hd (clean_offsets os) = 0
       \<and> sorted (clean_offsets os) \<and> length os = Suc (rows records)"
      using k ma'
      by (intro span_last [OF os _ _ keys_len, where flat = "MapKeyIterable records"])
         (auto simp: MapKeyIterable_def built_ok_def)
    with ma' k v show "built_ok records a" by (auto simp: built_ok_def)
  qed
next
  case (4 records descriptor validity_mask config)
  show ?case
  proof (intro allI impI)
    fix a assume a: "message_to_array records descriptor validity_mask config = Inr a"
    then obtain cols msk where cols:
        "message_fields_to_arrays records (fields descriptor) config = Inr cols"
        "StructArray_from_arrays (map fst cols) (map snd cols) msk = Inr a"
      by (auto simp: message_to_array.simps and_then_eq_Inr)
    from "4.IH" cols(1) have ch: "\<forall>c \<in> set cols. built_ok records (fst c)" by blast
    from StructArray_from_arrays_Inr [OF cols(2)] obtain valid where
      v: "a = StructArray (map snd cols) (map fst cols) valid"
         "\<forall>c \<in> set (map fst cols). array_len c = length valid"
         "map fst cols = [] \<longrightarrow> valid = []"
         "map fst cols \<noteq> [] \<longrightarrow> length valid = array_len (hd (map fst cols))"
      by blast
    have len: "length valid = rows records \<or> length valid = 0"
    proof (cases cols)
      case Nil
      with v show ?thesis by simp
    next
      case (Cons c cs)
      with v ch show ?thesis by (auto simp: built_ok_def)
    qed
    show "built_ok records a"
      using v ch len by (auto simp: built_ok_def list_all_iff)
  qed
next
  case (5 records config)
  show ?case by simp
next
  case (6 records field fs config)
  show ?case
  proof (intro allI impI ballI)
    fix cols c
    assume cols: "message_fields_to_arrays records (field # fs) config = Inr cols"
      and c: "c \<in> set cols"
    let ?nested = "NestedIterable records (\<lambda>r. getattr r (name field))"
    from cols obtain a rest where
      a: "(if is_map_field field then proto_map_to_array ?nested field config
           else if label field = LABEL_REPEATED then repeated_proto_to_array ?nested field config
           else and_then (proto_field_validity_mask records field)
                  (\<lambda>m. proto_field_to_array ?nested field m config)) = Inr a"
      and rest: "message_fields_to_arrays records fs config = Inr rest"
      and colseq: "cols = (a, pa_field (name field) (array_type a)
                            (proto_field_nullable field True)) # rest"
      by (auto simp: and_then_eq_Inr)
    have "built_ok ?nested a"
      using a "6.IH"(1,2,3)
      by (auto simp: and_then_eq_Inr split: if_splits)
    then have "built_ok records a"
      using rows_NestedIterable [of records "\<lambda>r. getattr r (name field)"]
      by (auto simp: built_ok_def)
    moreover have "\<forall>c \<in> set rest. built_ok records (fst c)"
      using "6.IH"(4) [OF a] rest by blast
    ultimately show "built_ok records (fst c)" using c colseq by auto
  qed
qed

lemma schema_of_fields:
  "message_fields_to_arrays records fs config = Inr cols \<Longrightarrow>
     length cols = length fs
     \<and> (\<forall>i < length fs. snd (cols ! i) =
           pa_field (name (fs ! i)) (array_type (fst (cols ! i)))
             (proto_field_nullable (fs ! i) True))"
proof (induction fs arbitrary: cols)
  case Nil
  then show ?case by simp
next
  case (Cons f fs)
  from Cons.prems obtain a rest where
    rest: "message_fields_to_arrays records fs config = Inr rest"
    and cols: "cols = (a, pa_field (name f) (array_type a) (proto_field_nullable f True)) # rest"
    by (auto simp: and_then_eq_Inr)
  from Cons.IH [OF rest] show ?case unfolding cols by (auto simp: nth_Cons split: nat.splits)
qed

lemma record_batch_Inr:
  assumes "messages_to_record_batch M T config = Inr batch"
  obtains cols valid where
    "message_fields_to_arrays (Inr M) (fields T) config = Inr cols"
    "schema batch = map snd cols" "columns batch = map fst cols" "num_rows batch = length valid"
    "message_to_array (Inr M) T None config = Inr (StructArray (map snd cols) (map fst cols) valid)"
proof -
  from assms obtain a where a: "message_to_array (Inr M) T None config = Inr a"
      "RecordBatch_from_struct_array a = Inr batch"
    by (auto simp: messages_to_record_batch_def and_then_eq_Inr)
  from a(1) obtain cols where cols:
      "message_fields_to_arrays (Inr M) (fields T) config = Inr cols"
      "StructArray_from_arrays (map fst cols) (map snd cols) None = Inr a"
    by (auto simp: message_to_array.simps and_then_eq_Inr)
  from StructArray_from_arrays_Inr [OF cols(2)] obtain valid where
    v: "a = StructArray (map snd cols) (map fst cols) valid" by blast
  with a(2) have "batch = RecordBatch (map snd cols) (map fst cols) (length valid)"
    by (simp add: RecordBatch_from_struct_array_def)
  with cols(1) a(1) v that show thesis by simp
qed

text \<open>
  Claim C3, as amended. In the schema of every record batch that
  \<^verbatim>\<open>messages_to_record_batch\<close> produces, the column of a field has the field's name;
  the column of every field of message type (a singular sub-message, wrapper or
  temporal field, a repeated message field, a map field) is nullable, and the column
  of a singular field of any other type is not nullable.
\<close>

theorem column_nullability:
  assumes "messages_to_record_batch M T config = Inr batch"
  shows "length (schema batch) = length (fields T)
       \<and> (\<forall>i < length (fields T).
            field_name (schema batch ! i) = name (fields T ! i)
            \<and> (ftype (fields T ! i) = TYPE_MESSAGE \<longrightarrow> nullable (schema batch ! i))
            \<and> (ftype (fields T ! i) \<noteq> TYPE_MESSAGE \<and> label (fields T ! i) \<noteq> LABEL_REPEATED
                 \<longrightarrow> \<not> nullable (schema batch ! i)))"
proof -
  from assms obtain cols valid where
    cols: "message_fields_to_arrays (Inr M) (fields T) config = Inr cols"
    and s: "schema batch = map snd cols"
    by (rule record_batch_Inr)
  from schema_of_fields [OF cols] s show ?thesis
    by (auto simp: proto_field_nullable_def)
qed

text \<open>
  Claim C4. In every record batch that \<^verbatim>\<open>messages_to_record_batch\<close> produces, every list
  and map array, at any depth of a column, has one offset more than it has rows, its
  first offset is zero, its offsets never decrease and its last offset is the length of
  its child array; a list or map column has as many rows as the batch.
\<close>

theorem offsets_well_formed_in_record_batch:
  assumes "messages_to_record_batch M T config = Inr batch"
  shows "list_all (offsets_well_formed (num_rows batch)) (columns batch)"
proof -
  from assms obtain cols valid where
    b: "columns batch = map fst cols" "num_rows batch = length valid"
    and a: "message_to_array (Inr M) T None config
        = Inr (StructArray (map snd cols) (map fst cols) valid)"
    by (rule record_batch_Inr)
  from builder_invariant(4) a
  have "built_ok (Inr M) (StructArray (map snd cols) (map fst cols) valid)" by blast
  then show ?thesis using b by (simp add: built_ok_def)
qed

lemma fixes_rows_fields: "fixes_rows d = list_ex field_fixes_rows (fields d)"
  by (cases d) simp

lemma field_values_to_array_rows:
  "field_values_to_array records c t nv msk = Inr a \<Longrightarrow>
     \<exists>rs. records = Inr rs \<and> array_len a = length rs"
  by (auto simp: field_values_to_array_def and_then_eq_Inr pa_array_def
      dest: convert_loop_length split: if_splits)

lemma NestedIterable_Inr:
  "NestedIterable records g = Inr rs' \<Longrightarrow> \<exists>rs. records = Inr rs \<and> length rs' = length rs"
  by (auto simp: NestedIterable_def and_then_eq_Inr dest: traverse_length)

lemma get_offsets_rows:
  "get_offsets records = Inr os \<Longrightarrow> \<exists>rs. records = Inr rs \<and> length os = Suc (length rs)"
  by (auto simp: get_offsets_def and_then_eq_Inr dest: get_offsets_loop_shape)

lemma builder_rows:
  "(\<forall>a. proto_field_to_array records field validity_mask config = Inr a
      \<longrightarrow> label field \<noteq> LABEL_REPEATED \<longrightarrow> \<not> is_map_field field
      \<longrightarrow> field_fixes_rows field \<longrightarrow> has_rows records a)"
  "(\<forall>a. repeated_proto_to_array records1 field1 config1 = Inr a \<longrightarrow> has_rows records1 a)"
  "(\<forall>a. proto_map_to_array records2 field2 config2 = Inr a \<longrightarrow> has_rows records2 a)"
  "(\<forall>a. message_to_array records3 descriptor3 validity_mask3 config3 = Inr a
      \<longrightarrow> fixes_rows descriptor3 \<longrightarrow> has_rows records3 a)"
  "(\<forall>cols. message_fields_to_arrays records4 fs4 config4 = Inr cols
      \<longrightarrow> list_ex field_fixes_rows fs4
      \<longrightarrow> (\<exists>c \<in> set cols. has_rows records4 (fst c)))"
proof (induction records field validity_mask config and records1 field1 config1
    and records2 field2 config2 and records3 descriptor3 validity_mask3 config3
    and records4 fs4 config4
    rule: proto_field_to_array_repeated_proto_to_array_proto_map_to_array_message_to_array_message_fields_to_arrays.induct)
  case (1 records field validity_mask config)
  show ?case
  proof (intro allI impI)
    fix a assume a: "proto_field_to_array records field validity_mask config = Inr a"
      and nr: "label field \<noteq> LABEL_REPEATED" "\<not> is_map_field field"
      and fx: "field_fixes_rows field"
    show "has_rows records a"
    proof (cases "ftype field = TYPE_MESSAGE
        \<and> PROTO_DESCRIPTOR_TO_ARROW_CONVERTER (message_type field) = None")
      case True
      with a obtain d where d: "message_type field = Some d"
          "message_to_array records d validity_mask config = Inr a"
        by (auto simp: proto_field_to_array.simps [of records field] split: option.splits)
      have fd: "fixes_rows d"
        using fx nr d True by (cases field) (auto simp: is_map_field_def)
      have "\<forall>a. message_to_array records d validity_mask config = Inr a
          \<longrightarrow> fixes_rows d \<longrightarrow> has_rows records a"
        using "1.IH" [of d] True d(1) by simp
      with d(2) fd show ?thesis by simp
    next
      case False
      with a show ?thesis
        by (auto simp: proto_field_to_array.simps [of records field] and_then_eq_Inr
            has_rows_def split: if_splits option.splits dest: field_values_to_array_rows)
    qed
  qed
next
  case (2 records field config)
  show ?case
  proof (intro allI impI)
    fix a assume a: "repeated_proto_to_array records field config = Inr a"
    then obtain os child t where os: "get_offsets records = Inr os"
      and la: "ListArray_from_arrays os child t = Inr a"
      by (auto simp: repeated_proto_to_array.simps and_then_eq_Inr)
    from get_offsets_rows [OF os] ListArray_from_arrays_Inr [OF la]
    show "has_rows records a" by (auto simp: has_rows_def)
  qed
next
  case (3 records field config)
  show ?case
  proof (intro allI impI)
    fix a assume a: "proto_map_to_array records field config = Inr a"
    then obtain os ks vs where os: "get_offsets records = Inr os"
      and ma: "MapArray_from_arrays os ks vs = Inr a"
      by (auto simp: proto_map_to_array.simps and_then_eq_Inr split: option.splits)
    from get_offsets_rows [OF os] MapArray_from_arrays_Inr [OF ma]
    show "has_rows records a" by (auto simp: has_rows_def)
  qed
next
  case (4 records descriptor validity_mask config)
  show ?case
  proof (intro allI impI)
    fix a assume a: "message_to_array records descriptor validity_mask config = Inr a"
      and fx: "fixes_rows descriptor"
    then obtain cols msk where cols:
        "message_fields_to_arrays records (fields descriptor) config = Inr cols"
        "StructArray_from_arrays (map fst cols) (map snd cols) msk = Inr a"
      by (auto simp: message_to_array.simps and_then_eq_Inr)
    from "4.IH" cols(1) fx obtain c where c: "c \<in> set cols" "has_rows records (fst c)"
      by (auto simp: fixes_rows_fields)
    from StructArray_from_arrays_Inr [OF cols(2)] obtain valid where
      v: "a = StructArray (map snd cols) (map fst cols) valid"
         "\<forall>c \<in> set (map fst cols). array_len c = length valid"
      by blast
    with c show "has_rows records a" by (auto simp: has_rows_def)
  qed
next
  case (5 records config)
  show ?case by simp
next
  case (6 records field fs config)
  show ?case
  proof (intro allI impI)
    fix cols
    assume cols: "message_fields_to_arrays records (field # fs) config = Inr cols"
      and fx: "list_ex field_fixes_rows (field # fs)"
    let ?nested = "NestedIterable records (\<lambda>r. getattr r (name field))"
    from cols obtain a rest where
      a: "(if is_map_field field then proto_map_to_array ?nested field config
           else if label field = LABEL_REPEATED then repeated_proto_to_array ?nested field config
           else and_then (proto_field_validity_mask records field)
                  (\<lambda>m. proto_field_to_array ?nested field m config)) = Inr a"
      and rest: "message_fields_to_arrays records fs config = Inr rest"
      and colseq: "cols = (a, pa_field (name field) (array_type a)
                            (proto_field_nullable field True)) # rest"
      by (auto simp: and_then_eq_Inr)
    show "\<exists>c \<in> set cols. has_rows records (fst c)"
    proof (cases "field_fixes_rows field")
      case True
      have "has_rows ?nested a"
        using a "6.IH"(1,2,3) True
        by (auto simp: and_then_eq_Inr split: if_splits)
      then have "has_rows records a"
        by (auto simp: has_rows_def dest: NestedIterable_Inr)
      then show ?thesis using colseq by auto
    next
      case False
      with fx have "list_ex field_fixes_rows fs" by simp
      with "6.IH"(4) [OF a] rest colseq show ?thesis by auto
    qed
  qed
qed

section \<open>The extractor keeps the number of messages\<close>

lemma write_cell_length:
  "write_cell h fd w cells = Inr cells' \<Longrightarrow> length cells' = length cells"
  by (auto simp: write_cell_def and_then_eq_Inr split: option.splits if_splits)

lemma assign_loop_length:
  "assign_loop fd call rws cells = Inr cells' \<Longrightarrow> length cells' = length cells"
proof (induction rws arbitrary: cells)
  case Nil
  then show ?case by simp
next
  case (Cons r rws)
  obtain h x where r: "r = (h, x)" by (cases r)
  from Cons.prems obtain c1 where c1: "write_cell h fd (call x) cells = Inr c1"
      "assign_loop fd call rws c1 = Inr cells'"
    by (auto simp: r and_then_eq_Inr)
  from Cons.IH [OF c1(2)] write_cell_length [OF c1(1)] show ?case by simp
qed

lemma reserve_loop_length:
  "reserve_loop fd kt conv dflt rws cells fake = Inr (entries, cells', fake')
   \<Longrightarrow> length cells' = length cells"
proof (induction rws arbitrary: cells fake entries)
  case Nil
  then show ?case by simp
next
  case (Cons r rws)
  obtain h key where r: "r = (h, key)" by (cases r)
  from Cons.prems obtain c1 f1 es where
    st: "length c1 = length cells"
    and rec: "reserve_loop fd kt conv dflt rws c1 f1 = Inr (es, cells', fake')"
    by (auto simp: r and_then_eq_Inr split: option.splits prod.splits
        dest: write_cell_length)
  from Cons.IH [OF rec] st show ?case by simp
qed

lemma chunks_length [simp]: "length (chunks ns xs) = length ns"
  by (induction ns arbitrary: xs) simp_all

lemma extract_length:
  "(\<forall>cells'. extract_field a fd hs cells = Inr cells' \<longrightarrow> length cells' = length cells)"
  "(\<forall>cells'. extract_repeated_field a1 fd1 hs1 cells1 = Inr cells'
      \<longrightarrow> length cells' = length cells1)"
  "(\<forall>cells'. extract_map_field a2 fd2 hs2 cells2 = Inr cells'
      \<longrightarrow> length cells' = length cells2)"
  "(\<forall>cells'. extract_repeated_message a3 fd3 hs3 cells3 = Inr cells'
      \<longrightarrow> length cells' = length cells3)"
  "(\<forall>cells'. extract_struct_field a4 fd4 hs4 cells4 = Inr cells'
      \<longrightarrow> length cells' = length cells4)"
  "(\<forall>cells'. extract_array_messages a5 d5 hs5 cells5 = Inr cells'
      \<longrightarrow> length cells' = length cells5)"
  "(\<forall>cells'. extract_struct_fields a6 fds6 hs6 cells6 = Inr cells'
      \<longrightarrow> length cells' = length cells6)"
proof (induction a fd hs cells and a1 fd1 hs1 cells1 and a2 fd2 hs2 cells2
    and a3 fd3 hs3 cells3 and a4 fd4 hs4 cells4 and a5 d5 hs5 cells5
    and a6 fds6 hs6 cells6
    rule: extract_field_extract_repeated_field_extract_map_field_extract_repeated_message_extract_struct_field_extract_array_messages_extract_struct_fields.induct)
  case (1 array0 field_descriptor messages cells)
  show ?case
  proof (intro allI impI)
    fix cells' assume e: "extract_field array0 field_descriptor messages cells = Inr cells'"
    then obtain array where p: "prepare_array array0 = Inr array"
      by (auto simp: extract_field.simps [of array0] and_then_eq_Inr)
    from e p "1.IH" [OF p] show "length cells' = length cells"
      by (auto simp: extract_field.simps [of array0] and_then_eq_Inr
          split: if_splits option.splits dest: assign_loop_length)
  qed
next
  case (2 array field_descriptor messages cells)
  then show ?case
    by (auto simp: extract_repeated_field.simps [of array] and_then_eq_Inr
        extract_repeated_primitive_assigner_def
        split: if_splits option.splits dest: assign_loop_length)
next
  case (3 array field_descriptor messages cells)
  show ?case
  proof (intro allI impI)
    fix cells' assume e: "extract_map_field array field_descriptor messages cells = Inr cells'"
    from e obtain offs valid ks items where arr: "array = MapArray offs valid ks items"
      by (cases array) (auto simp: extract_map_field.simps)
    from e arr obtain d vt where d: "message_type field_descriptor = Some d"
      and vt: "fields_by_name d ''value'' = Inr vt"
      by (auto simp: extract_map_field.simps and_then_eq_Inr split: option.splits)
    show "length cells' = length cells"
    proof (cases "is_custom_field vt")
      case False
      with e arr d vt show ?thesis
        by (auto simp: extract_map_field.simps and_then_eq_Inr
            dest: assign_loop_length)
    next
      case True
      with e arr d vt obtain kf conv sizes vd entries cells1 fake chs where
        r: "reserve_loop field_descriptor (ftype kf) conv (concrete_class vd)
              (zip (assigner_targets messages sizes) (scalars ks)) cells [] =
            Inr (entries, cells1, fake)"
        and c': "cells' = map (\<lambda>(c, ch). put_entries (name field_descriptor) c ch)
                   (zip cells1 (chunks (map (\<lambda>c. length
                      (entries_of (name field_descriptor) c)) cells1) chs))"
        by (cases items)
           (auto simp: extract_map_field.simps and_then_eq_Inr
            split: option.splits prod.splits)
      from reserve_loop_length [OF r] c' show ?thesis by auto
    qed
  qed
next
  case (4 array field_descriptor messages cells)
  show ?case
    by (auto simp: extract_repeated_message.simps [of array] and_then_eq_Inr
        split: array.splits option.splits dest: assign_loop_length)
next
  case (5 array field_descriptor messages cells)
  show ?case
  proof (intro allI impI)
    fix cells' assume e: "extract_struct_field array field_descriptor messages cells = Inr cells'"
    then obtain d children where d: "message_type field_descriptor = Some d"
      and ch: "extract_array_messages array d
               (OptionalNestedIterable messages (is_valid array))
               (map (child_cell (name field_descriptor)) cells) = Inr children"
      and c': "cells' = map (\<lambda>(c, c'). put_child (name field_descriptor) c c')
                      (zip cells children)"
      by (auto simp: extract_struct_field.simps [of array] and_then_eq_Inr
          split: option.splits)
    from "5.IH" [OF d] ch have "length children = length cells" by auto
    with c' show "length cells' = length cells" by simp
  qed
next
  case (6 array message_descriptor messages cells)
  then show ?case
    by (auto simp: extract_array_messages.simps [of array] split: array.splits)
next
  case (7 array messages cells)
  show ?case by simp
next
  case (8 array field_descriptor rest messages cells)
  show ?case
  proof (intro allI impI)
    fix cells'
    assume e: "extract_struct_fields array (field_descriptor # rest) messages cells = Inr cells'"
    then obtain c1 where c1:
      "(case get_field_index (array_type array) (name field_descriptor) of
          None \<Rightarrow> Inr cells
        | Some i \<Rightarrow> and_then (struct_field array i)
             (\<lambda>child. extract_field child field_descriptor messages cells)) = Inr c1"
      and r: "extract_struct_fields array rest messages c1 = Inr cells'"
      by (auto simp: and_then_eq_Inr)
    have "length c1 = length cells"
      using c1 "8.IH"(1) by (auto simp: and_then_eq_Inr split: option.splits)
    moreover have "length cells' = length c1" using "8.IH"(2) [OF c1] r by auto
    ultimately show "length cells' = length cells" by simp
  qed
qed

lemma extract_record_batch_fields_length:
  "extract_record_batch_fields b fds hs cells = Inr cells' \<Longrightarrow> length cells' = length cells"
proof (induction fds arbitrary: cells)
  case Nil
  then show ?case by simp
next
  case (Cons fd fds)
  from Cons.prems obtain c1 where c1:
      "(if name fd \<in> set (map field_name (schema b)) then
          (case get_field_index (pa_struct (schema b)) (name fd) of
             None \<Rightarrow> Inl KeyError
           | Some i \<Rightarrow>
               if i < length (columns b)
               then extract_field (columns b ! i) fd hs cells
               else Inl IndexError)
        else Inr cells) = Inr c1"
      "extract_record_batch_fields b fds hs c1 = Inr cells'"
    by (auto simp: and_then_eq_Inr)
  have "length c1 = length cells"
    using c1(1) extract_length(1) [rule_format]
    by (fastforce split: if_splits option.splits)
  with Cons.IH [OF c1(2)] show ?case by simp
qed

lemma record_batch_to_messages_length:
  "record_batch_to_messages b T = Inr ms \<Longrightarrow> length ms = num_rows b"
  by (auto simp: record_batch_to_messages_def extract_record_batch_messages_def
      and_then_eq_Inr dest: extract_record_batch_fields_length)

lemma struct_lengths_columns:
  assumes "messages_to_record_batch M T config = Inr batch"
  shows "list_all (\<lambda>c. array_len c = num_rows batch \<and> struct_lengths c) (columns batch)"
proof -
  from assms obtain cols valid where
    b: "columns batch = map fst cols" "num_rows batch = length valid"
    and a: "message_to_array (Inr M) T None config
        = Inr (StructArray (map snd cols) (map fst cols) valid)"
    by (rule record_batch_Inr)
  from builder_invariant(4) a
  have "built_ok (Inr M) (StructArray (map snd cols) (map fst cols) valid)" by blast
  then show ?thesis using b by (simp add: built_ok_def)
qed

lemma num_rows_messages:
  assumes "messages_to_record_batch M T config = Inr batch" "fixes_rows T"
  shows "num_rows batch = length M"
proof -
  from assms(1) obtain cols valid where
    b: "num_rows batch = length valid"
    and a: "message_to_array (Inr M) T None config
        = Inr (StructArray (map snd cols) (map fst cols) valid)"
    by (rule record_batch_Inr)
  from builder_rows(4) a assms(2)
  have "has_rows (Inr M) (StructArray (map snd cols) (map fst cols) valid)" by blast
  then show ?thesis using b by (simp add: has_rows_def)
qed

text \<open>
  Claim C9, as amended. For every record batch that \<^verbatim>\<open>messages_to_record_batch\<close>
  produces, the number of rows is the number of messages when the message type fixes
  the number of rows, and every column and every struct array inside a column has
  children of its own length. Every list that \<^verbatim>\<open>record_batch_to_messages\<close> returns has
  as many messages as the batch has rows.
\<close>

theorem length_preservation:
  "(messages_to_record_batch M T config = Inr batch \<longrightarrow>
      (fixes_rows T \<longrightarrow> num_rows batch = length M)
      \<and> list_all (\<lambda>c. array_len c = num_rows batch \<and> struct_lengths c) (columns batch))
   \<and> (record_batch_to_messages b T' = Inr ms \<longrightarrow> length ms = num_rows b)"
  using num_rows_messages struct_lengths_columns record_batch_to_messages_length by blast

section \<open>The properties on the example\<close>

lemma example_build:
  "messages_to_record_batch [example_message, concrete_class Example_Outer] Example_Outer
     default_config = Inr example_batch"
  by code_simp

theorem column_nullability_witness:
  "messages_to_record_batch [example_message, concrete_class Example_Outer] Example_Outer
     default_config = Inr example_batch
   \<and> length (schema example_batch) = length (fields Example_Outer)
   \<and> ftype (fields Example_Outer ! 2) = TYPE_MESSAGE
   \<and> field_name (schema example_batch ! 2) = name (fields Example_Outer ! 2)
   \<and> nullable (schema example_batch ! 2)
   \<and> ftype (fields Example_Outer ! 0) \<noteq> TYPE_MESSAGE
   \<and> label (fields Example_Outer ! 0) \<noteq> LABEL_REPEATED
   \<and> \<not> nullable (schema example_batch ! 0)"
proof -
  have l: "2 < length (fields Example_Outer)" "0 < length (fields Example_Outer)"
    by code_simp+
  have t: "ftype (fields Example_Outer ! 2) = TYPE_MESSAGE"
    "ftype (fields Example_Outer ! 0) \<noteq> TYPE_MESSAGE"
    "label (fields Example_Outer ! 0) \<noteq> LABEL_REPEATED"
    by code_simp+
  from column_nullability [OF example_build] l t example_build show ?thesis by blast
qed

theorem map_column_nullable_counterexample:
  "messages_to_record_batch [Message [(''si'', MapContainer [(PyStr ''a'', PyInt 1)])]]
     map_message_type default_config
   = Inr (RecordBatch [pa_field ''si'' (pa_map pa_string pa_int32) True]
       [MapArray [0, 1] [True] (Array pa_string [PyStr ''a'']) (Array pa_int32 [PyInt 1])] 1)
   \<and> label (hd (fields map_message_type)) = LABEL_REPEATED
   \<and> is_map_field (hd (fields map_message_type))"
  by code_simp

theorem offsets_well_formed_in_record_batch_witness:
  "messages_to_record_batch [example_message, concrete_class Example_Outer] Example_Outer
     default_config = Inr example_batch
   \<and> list_all (offsets_well_formed (num_rows example_batch)) (columns example_batch)"
  using example_build offsets_well_formed_in_record_batch [OF example_build] by blast

lemma example_extract:
  "record_batch_to_messages example_batch Example_Outer
     = Inr [example_message, concrete_class Example_Outer]"
  by code_simp

lemma example_fixes_rows: "fixes_rows Example_Outer"
  by code_simp

theorem length_preservation_witness:
  "messages_to_record_batch [example_message, concrete_class Example_Outer] Example_Outer
     default_config = Inr example_batch
   \<and> fixes_rows Example_Outer
   \<and> num_rows example_batch = length [example_message, concrete_class Example_Outer]
   \<and> list_all (\<lambda>c. array_len c = num_rows example_batch \<and> struct_lengths c)
        (columns example_batch)
   \<and> record_batch_to_messages example_batch Example_Outer
        = Inr [example_message, concrete_class Example_Outer]
   \<and> length [example_message, concrete_class Example_Outer] = num_rows example_batch"
  using example_build example_fixes_rows example_extract
    length_preservation [of "[example_message, concrete_class Example_Outer]" Example_Outer
      default_config example_batch example_batch Example_Outer
      "[example_message, concrete_class Example_Outer]"]
  by blast

theorem empty_message_type_counterexample:
  "messages_to_record_batch [Message []] Empty_DESCRIPTOR default_config
     = Inr (RecordBatch [] [] 0)
   \<and> num_rows (RecordBatch [] [] 0) \<noteq> length [Message []]"
  by code_simp


section \<open>Loops of writes\<close>

lemma masked_handles_length [simp]: "length (masked_handles k bs) = length bs"
  by (induction bs arbitrary: k) simp_all

lemma all_handles: "map Some [k..<k + n] = masked_handles k (replicate n True)"
proof (induction n arbitrary: k)
  case 0
  then show ?case by simp
next
  case (Suc n)
  have "[k..<k + Suc n] = k # [Suc k..<Suc k + n]" by (simp add: upt_conv_Cons)
  with Suc [of "Suc k"] show ?case by simp
qed

lemma OptionalNestedIterable_masked:
  "length valid = length bs \<Longrightarrow>
   OptionalNestedIterable (masked_handles k bs) valid
     = masked_handles k (map (\<lambda>(b, v). b \<and> v) (zip bs valid))"
proof (induction bs arbitrary: k valid)
  case Nil
  then show ?case by (simp add: OptionalNestedIterable_def)
next
  case (Cons b bs)
  then obtain v vs where v: "valid = v # vs" by (cases valid) auto
  with Cons.prems have "length vs = length bs" by simp
  from Cons.IH [OF this, of "Suc k"] show ?case
    by (auto simp: v OptionalNestedIterable_def)
qed


lemma assign_loop_rowwise_aux:
  assumes "length cs = length bs" "length xs = length bs"
    and "list_all (row_ok fd call) (zip cs (zip bs xs))"
  shows "assign_loop fd call (zip (masked_handles (length pre) bs) xs) (pre @ cs)
       = Inr (pre @ map (row_write call) (zip cs (zip bs xs)))"
  using assms
proof (induction cs arbitrary: pre bs xs)
  case Nil
  then show ?case by simp
next
  case (Cons c cs)
  from Cons.prems obtain b bs' x xs' where bx: "bs = b # bs'" "xs = x # xs'"
      "length cs = length bs'" "length xs' = length bs'"
    by (cases bs; cases xs) auto
  from Cons.prems(3) have ok: "row_ok fd call (c, b, x)"
      "list_all (row_ok fd call) (zip cs (zip bs' xs'))"
    by (simp_all add: bx)
  have w: "write_cell (if b then Some (length pre) else None) fd (call x) (pre @ c # cs)
      = Inr (pre @ row_write call (c, b, x) # cs)"
    using ok(1)
    by (auto simp: write_cell_def row_ok_def row_write_def nth_append
        split: sum.splits option.splits)
  have "assign_loop fd call (zip (masked_handles (length (pre @ [row_write call (c, b, x)])) bs') xs')
          ((pre @ [row_write call (c, b, x)]) @ cs)
        = Inr ((pre @ [row_write call (c, b, x)]) @ map (row_write call) (zip cs (zip bs' xs')))"
    by (rule Cons.IH [OF bx(3,4) ok(2)])
  then show ?case using w by (simp add: bx)
qed

lemma assign_loop_rowwise:
  assumes "length cs = length bs" "length xs = length bs"
    and "list_all (row_ok fd call) (zip cs (zip bs xs))"
  shows "assign_loop fd call (zip (masked_handles 0 bs) xs) cs
       = Inr (map (row_write call) (zip cs (zip bs xs)))"
  using assign_loop_rowwise_aux [OF assms, of "[]"] by simp

lemma prepare_array_Array:
  "(\<forall>u. t \<noteq> pa_time64 u) \<Longrightarrow> prepare_array (Array t xs) = Inr (Array t xs)"
  by (cases t) (simp_all add: prepare_array_def)

lemma scalars_Array [simp]: "scalars (Array t xs) = map (Pair t) xs"
  by (simp add: scalars_def)

lemma update_slot_found:
  "map_of fs n = Some old \<Longrightarrow>
   update_slot n w fs = and_then (w old) (\<lambda>v'. Inr (fs [index_of n (map fst fs) := (n, v')]))"
proof (induction fs)
  case Nil
  then show ?case by simp
next
  case (Cons a fs)
  obtain k v where a: "a = (k, v)" by (cases a)
  show ?case
  proof (cases "k = n")
    case True
    with Cons.prems a show ?thesis by simp
  next
    case False
    with Cons.prems a have "map_of fs n = Some old" by simp
    from Cons.IH [OF this] False a show ?thesis
      by (cases "w old") auto
  qed
qed

lemma map_of_update_index:
  "map_of fs n = Some old \<Longrightarrow> map_of (fs [index_of n (map fst fs) := (n, v)]) n = Some v"
  by (induction fs) (auto split: if_splits)

lemma setattr_Message:
  assumes "map_of fs (name fd) = Some old" "label fd \<noteq> LABEL_REPEATED"
    "check_value (ftype fd) v = Inr v"
  shows "setattr (Message fs) fd v
     = Inr (Message (fs [index_of (name fd) (map fst fs) := (name fd, v)]))"
  using assms by (simp add: setattr_def modify_field_def update_slot_found)

section \<open>Decoding enum columns\<close>

lemma getattr_update_index:
  assumes "map_of fs n = Some old" "\<forall>p s. v \<noteq> Submessage p s"
  shows "getattr (Message (fs [index_of n (map fst fs) := (n, v)])) n = Inr v"
  using assms map_of_update_index [OF assms(1), of v]
  by (cases v) (auto simp: getattr_def)

lemma enum_number_fits:
  assumes "list_all (\<lambda>(nm, num). int_fits 32 True (PyInt num)) e" "values_by_name e nm = Some num"
  shows "check_value TYPE_ENUM (PyInt num) = Inr (PyInt num)"
proof -
  from assms(2) have "(nm, num) \<in> set e" by (simp add: values_by_name_def map_of_SomeD)
  with assms(1) have "int_fits 32 True (PyInt num)" by (auto simp: list_all_iff)
  then show ?thesis by (simp add: check_value_def check_int_def)
qed

lemma get_slot_Some:
  "get_slot m n \<noteq> None \<Longrightarrow> \<exists>fs old. m = Message fs \<and> map_of fs n = Some old"
  by (cases m) (auto simp: get_slot_def)

lemma enum_call_typed:
  assumes "(\<exists>u tz. t = pa_timestamp u tz) \<longrightarrow> fits t x" "\<forall>u. t \<noteq> pa_time64 u"
  shows "(if scalar_is_valid (t, x)
          then PlainAssigner_call fd (convert_enum e) False (t, x) m else Inr None)
     = (case (case x of PyStr nm \<Rightarrow> values_by_name e nm | PyBytes nm \<Rightarrow> values_by_name e nm
                | _ \<Rightarrow> None) of
          None \<Rightarrow> Inr None
        | Some num \<Rightarrow> and_then (setattr m fd (PyInt num)) (\<lambda>m'. Inr (Some m')))"
  using assms
  by (cases t; cases x)
    (auto simp: scalar_is_valid_def PlainAssigner_call_def convert_enum_def as_py_def
      fits_def int_fits_def split: option.splits)

lemma enum_call_time:
  shows "(if scalar_is_valid (pa_int64, case x of PyInt i \<Rightarrow> PyInt (wrap_int64 (i * r)) | _ \<Rightarrow> x)
          then PlainAssigner_call fd (convert_enum e) False
                 (pa_int64, case x of PyInt i \<Rightarrow> PyInt (wrap_int64 (i * r)) | _ \<Rightarrow> x) m
          else Inr None)
     = (case (case x of PyStr nm \<Rightarrow> values_by_name e nm | PyBytes nm \<Rightarrow> values_by_name e nm
                | _ \<Rightarrow> None) of
          None \<Rightarrow> Inr None
        | Some num \<Rightarrow> and_then (setattr m fd (PyInt num)) (\<lambda>m'. Inr (Some m')))"
  by (cases x)
    (auto simp: scalar_is_valid_def PlainAssigner_call_def convert_enum_def as_py_def
      fits_def int_fits_def split: option.splits)

lemma enum_prepare:
  assumes t: "t \<noteq> pa_time64 Unit_s" "t \<noteq> pa_time64 Unit_ms"
  obtains a' g where "prepare_array (Array t xs) = Inr a'" "scalars a' = map g xs"
    "\<And>x m. (\<exists>u tz. t = pa_timestamp u tz) \<longrightarrow> fits t x \<Longrightarrow>
       (if scalar_is_valid (g x)
        then PlainAssigner_call fd (convert_enum e) False (g x) m else Inr None)
       = (case (case x of PyStr nm \<Rightarrow> values_by_name e nm
                | PyBytes nm \<Rightarrow> values_by_name e nm | _ \<Rightarrow> None) of
            None \<Rightarrow> Inr None
          | Some num \<Rightarrow> and_then (setattr m fd (PyInt num)) (\<lambda>m'. Inr (Some m')))"
proof (cases "\<exists>u. t = pa_time64 u")
  case True
  then obtain u where u: "t = pa_time64 u" by blast
  with t obtain r where r: "TIME_CONVERTER t = Some r"
    by (cases u) (simp_all add: TIME_CONVERTER_def)
  let ?g = "\<lambda>x. (pa_int64, case x of PyInt i \<Rightarrow> PyInt (wrap_int64 (i * r)) | _ \<Rightarrow> x)"
  have 1: "prepare_array (Array t xs) = Inr (Array pa_int64 (map (\<lambda>x. snd (?g x)) xs))"
    using r u by (simp add: prepare_array_def)
  have 2: "scalars (Array pa_int64 (map (\<lambda>x. snd (?g x)) xs)) = map ?g xs"
    by (simp add: scalars_def)
  show ?thesis
    by (rule that [OF 1 2]) (rule enum_call_time)
next
  case False
  then have n: "\<forall>u. t \<noteq> pa_time64 u" by blast
  have 1: "prepare_array (Array t xs) = Inr (Array t xs)"
    using n by (intro prepare_array_Array) simp
  have 2: "scalars (Array t xs) = map (Pair t) xs" by simp
  show ?thesis
    by (rule that [OF 1 2]) (rule enum_call_typed [OF _ n])
qed

lemma enum_write:
  assumes fd: "ftype fd = TYPE_ENUM" "label fd \<noteq> LABEL_REPEATED"
    and nums: "list_all (\<lambda>(nm, num). int_fits 32 True (PyInt num)) e"
    and slot: "get_slot m (name fd) \<noteq> None"
  shows "\<exists>r. (case (case x of PyStr nm \<Rightarrow> values_by_name e nm
                | PyBytes nm \<Rightarrow> values_by_name e nm | _ \<Rightarrow> None) of
            None \<Rightarrow> Inr None
          | Some num \<Rightarrow> and_then (setattr m fd (PyInt num)) (\<lambda>m'. Inr (Some m'))) = Inr r
     \<and> (case (case x of PyStr nm \<Rightarrow> values_by_name e nm
                | PyBytes nm \<Rightarrow> values_by_name e nm | _ \<Rightarrow> None) of
            None \<Rightarrow> r = None
          | Some num \<Rightarrow> \<exists>m'. r = Some m' \<and> setattr m fd (PyInt num) = Inr m'
                \<and> getattr m' (name fd) = Inr (PyInt num))"
proof -
  from get_slot_Some [OF slot] obtain fs old where
    m: "m = Message fs" "map_of fs (name fd) = Some old" by blast
  let ?look = "case x of PyStr nm \<Rightarrow> values_by_name e nm | PyBytes nm \<Rightarrow> values_by_name e nm
                | _ \<Rightarrow> None"
  show ?thesis
  proof (cases ?look)
    case None
    then show ?thesis by simp
  next
    case (Some num)
    then obtain nm where nm: "values_by_name e nm = Some num"
      by (auto split: pvalue.splits)
    have chk: "check_value (ftype fd) (PyInt num) = Inr (PyInt num)"
      using enum_number_fits [OF nums nm] fd(1) by simp
    have s: "setattr m fd (PyInt num)
        = Inr (Message (fs [index_of (name fd) (map fst fs) := (name fd, PyInt num)]))"
      unfolding m(1) by (rule setattr_Message [OF m(2) fd(2) chk])
    have g: "getattr (Message (fs [index_of (name fd) (map fst fs) := (name fd, PyInt num)]))
        (name fd) = Inr (PyInt num)"
      by (rule getattr_update_index [OF m(2)]) simp
    show ?thesis unfolding Some using s g by simp
  qed
qed

text \<open>
  Claim C6. Decoding a singular enum column looks each element up by name in the enum of the
  field: an element that is a string or bytes and names a value of the enum has that value's
  number assigned to the field of the row's message; every other element, a name that is no
  value of the enum, a null or a number of an \<^verbatim>\<open>int32\<close> column, leaves the message of its row
  as it was, and the extraction raises nothing. The column has any type of pyarrow (its
  \<^verbatim>\<open>time64\<close> has the units \<^verbatim>\<open>us\<close> and \<^verbatim>\<open>ns\<close> only; a timestamp column holds integers), the enum's
  numbers are \<^verbatim>\<open>int32\<close> and each message has the field.
\<close>

theorem singular_enum_decode:
  assumes fd: "ftype fd = TYPE_ENUM" "label fd \<noteq> LABEL_REPEATED" "message_type fd = None"
      "field_enum_type fd = Some e"
    and t: "t \<noteq> pa_time64 Unit_s" "t \<noteq> pa_time64 Unit_ms"
    and ts: "(\<exists>u tz. t = pa_timestamp u tz) \<longrightarrow> list_all (fits t) xs"
    and nums: "list_all (\<lambda>(nm, num). int_fits 32 True (PyInt num)) e"
    and len: "length cells = length xs"
    and slots: "list_all (\<lambda>c. get_slot (snd c) (name fd) \<noteq> None) cells"
  shows "\<exists>cells'. extract_field (Array t xs) fd (map Some [0..<length xs]) cells = Inr cells'
     \<and> length cells' = length xs
     \<and> (\<forall>i<length xs.
          case (case xs ! i of PyStr nm \<Rightarrow> values_by_name e nm
                | PyBytes nm \<Rightarrow> values_by_name e nm | _ \<Rightarrow> None) of
            None \<Rightarrow> cells' ! i = cells ! i
          | Some num \<Rightarrow>
              setattr (snd (cells ! i)) fd (PyInt num) = Inr (snd (cells' ! i))
              \<and> getattr (snd (cells' ! i)) (name fd) = Inr (PyInt num))"
proof -
  let ?call = "\<lambda>v m. if scalar_is_valid v
      then PlainAssigner_call fd (convert_enum e) False v m else Inr None"
  let ?look = "\<lambda>x. case x of PyStr nm \<Rightarrow> values_by_name e nm
                | PyBytes nm \<Rightarrow> values_by_name e nm | _ \<Rightarrow> None"
  from t obtain a' g where p: "prepare_array (Array t xs) = Inr a'"
    and sc: "scalars a' = map g xs"
    and call: "\<And>x m. (\<exists>u tz. t = pa_timestamp u tz) \<longrightarrow> fits t x \<Longrightarrow>
       ?call (g x) m = (case ?look x of
            None \<Rightarrow> Inr None
          | Some num \<Rightarrow> and_then (setattr m fd (PyInt num)) (\<lambda>m'. Inr (Some m')))"
    by (rule enum_prepare [where xs = xs and fd = fd and e = e]) blast
  let ?rows = "zip cells (zip (replicate (length xs) True) (map g xs))"
  have row: "\<exists>r. ?call (g (xs ! i)) (snd (cells ! i)) = Inr r
     \<and> (case ?look (xs ! i) of
            None \<Rightarrow> r = None
          | Some num \<Rightarrow> \<exists>m'. r = Some m' \<and> setattr (snd (cells ! i)) fd (PyInt num) = Inr m'
                \<and> getattr m' (name fd) = Inr (PyInt num))" if i: "i < length xs" for i
  proof -
    from slots len i have s: "get_slot (snd (cells ! i)) (name fd) \<noteq> None"
      by (simp add: list_all_length)
    from ts i have "(\<exists>u tz. t = pa_timestamp u tz) \<longrightarrow> fits t (xs ! i)"
      by (simp add: list_all_length)
    from call [OF this] enum_write [OF fd(1,2) nums s, of "xs ! i"] show ?thesis by simp
  qed
  have ok: "list_all (row_ok fd ?call) ?rows"
    unfolding list_all_length
  proof (intro allI impI)
    fix i assume "i < length ?rows"
    with len have i: "i < length xs" by simp
    from row [OF i] show "row_ok fd ?call (?rows ! i)"
      using i len by (auto simp: row_ok_def)
  qed
  have loop: "assign_loop fd ?call (zip (map Some [0..<length xs]) (map g xs)) cells
      = Inr (map (row_write ?call) ?rows)"
    using assign_loop_rowwise [OF _ _ ok] len all_handles [of 0 "length xs"] by simp
  have ex: "extract_field (Array t xs) fd (map Some [0..<length xs]) cells
      = Inr (map (row_write ?call) ?rows)"
  proof -
    have n: "in_NULLABLE_TYPES (message_type fd) = False"
      using fd(3) by (simp add: in_NULLABLE_TYPES_def)
    show ?thesis
      unfolding extract_field.simps p n using fd loop sc
      by (simp add: SPECIAL_TYPES_def get_converter_def)
  qed
  show ?thesis
  proof (intro exI conjI allI impI)
    show "extract_field (Array t xs) fd (map Some [0..<length xs]) cells
      = Inr (map (row_write ?call) ?rows)" by (rule ex)
    show "length (map (row_write ?call) ?rows) = length xs" using len by simp
  next
    fix i assume i: "i < length xs"
    from row [OF i] obtain r where
      r: "?call (g (xs ! i)) (snd (cells ! i)) = Inr r"
        "case ?look (xs ! i) of
            None \<Rightarrow> r = None
          | Some num \<Rightarrow> \<exists>m'. r = Some m' \<and> setattr (snd (cells ! i)) fd (PyInt num) = Inr m'
                \<and> getattr m' (name fd) = Inr (PyInt num)"
      by blast
    have w: "map (row_write ?call) ?rows ! i
        = (case r of None \<Rightarrow> cells ! i | Some m' \<Rightarrow> (True, m'))"
      using i len r(1) by (simp add: row_write_def split: option.splits)
    show "case ?look (xs ! i) of
            None \<Rightarrow> map (row_write ?call) ?rows ! i = cells ! i
          | Some num \<Rightarrow>
              setattr (snd (cells ! i)) fd (PyInt num)
                = Inr (snd (map (row_write ?call) ?rows ! i))
              \<and> getattr (snd (map (row_write ?call) ?rows ! i)) (name fd) = Inr (PyInt num)"
      using r(2) unfolding w by (auto split: option.splits)
  qed
qed

theorem singular_enum_decode_witness:
  "(\<exists>cells'. extract_field (Array pa_binary [PyBytes ''GREEN'', PyBytes ''PURPLE'', PyNone])
       (FieldDescriptor ''color'' TYPE_ENUM LABEL_OPTIONAL None (Some Example_Color))
       (map Some [0..<3]) (replicate 3 (False, concrete_class enum_message_type)) = Inr cells'
     \<and> length cells' = 3
     \<and> values_by_name Example_Color ''GREEN'' = Some 1
     \<and> getattr (snd (cells' ! 0)) ''color'' = Inr (PyInt 1)
     \<and> values_by_name Example_Color ''PURPLE'' = None
     \<and> cells' ! 1 = (False, concrete_class enum_message_type)
     \<and> cells' ! 2 = (False, concrete_class enum_message_type))
   \<and> (\<exists>cells'. extract_field (Array pa_int32 [PyInt 1])
       (FieldDescriptor ''color'' TYPE_ENUM LABEL_OPTIONAL None (Some Example_Color))
       (map Some [0..<1]) (replicate 1 (False, concrete_class enum_message_type)) = Inr cells'
     \<and> cells' ! 0 = (False, concrete_class enum_message_type)
     \<and> getattr (concrete_class enum_message_type) ''color'' = Inr (PyInt 0))"
proof -
  let ?fd = "FieldDescriptor ''color'' TYPE_ENUM LABEL_OPTIONAL None (Some Example_Color)"
  let ?xs = "[PyBytes ''GREEN'', PyBytes ''PURPLE'', PyNone]"
  let ?cells = "replicate 3 (False, concrete_class enum_message_type)"
  let ?ys = "[PyInt 1]"
  let ?cells1 = "replicate 1 (False, concrete_class enum_message_type)"
  have g: "values_by_name Example_Color ''GREEN'' = Some 1"
    and p: "values_by_name Example_Color ''PURPLE'' = None"
    and d: "getattr (concrete_class enum_message_type) ''color'' = Inr (PyInt 0)"
    by code_simp+
  have nums: "list_all (\<lambda>(nm, num). int_fits 32 True (PyInt num)) Example_Color"
    by code_simp
  have slots: "list_all (\<lambda>c. get_slot (snd c) (name ?fd) \<noteq> None) ?cells"
    "list_all (\<lambda>c. get_slot (snd c) (name ?fd) \<noteq> None) ?cells1"
    by code_simp+
  have l: "length ?xs = 3" "length ?ys = 1" by simp_all
  from singular_enum_decode [of ?fd Example_Color pa_binary ?xs ?cells,
      OF _ _ _ _ _ _ _ nums _ slots(1)]
  obtain cells' where c:
    "extract_field (Array pa_binary ?xs) ?fd (map Some [0..<length ?xs]) ?cells = Inr cells'"
    "length cells' = length ?xs"
    "\<forall>i<length ?xs.
          case (case ?xs ! i of PyStr nm \<Rightarrow> values_by_name Example_Color nm
                | PyBytes nm \<Rightarrow> values_by_name Example_Color nm | _ \<Rightarrow> None) of
            None \<Rightarrow> cells' ! i = ?cells ! i
          | Some num \<Rightarrow>
              setattr (snd (?cells ! i)) ?fd (PyInt num) = Inr (snd (cells' ! i))
              \<and> getattr (snd (cells' ! i)) (name ?fd) = Inr (PyInt num)"
    by auto
  from c(3) [rule_format, of 0] g
  have g': "getattr (snd (cells' ! 0)) ''color'' = Inr (PyInt 1)" by simp
  from c(3) [rule_format, of 1] p
  have p': "cells' ! 1 = (False, concrete_class enum_message_type)" by simp
  from c(3) [rule_format, of 2]
  have n': "cells' ! 2 = (False, concrete_class enum_message_type)" by simp
  from singular_enum_decode [of ?fd Example_Color pa_int32 ?ys ?cells1,
      OF _ _ _ _ _ _ _ nums _ slots(2)]
  obtain cells1' where c1:
    "extract_field (Array pa_int32 ?ys) ?fd (map Some [0..<length ?ys]) ?cells1 = Inr cells1'"
    "\<forall>i<length ?ys.
          case (case ?ys ! i of PyStr nm \<Rightarrow> values_by_name Example_Color nm
                | PyBytes nm \<Rightarrow> values_by_name Example_Color nm | _ \<Rightarrow> None) of
            None \<Rightarrow> cells1' ! i = ?cells1 ! i
          | Some num \<Rightarrow>
              setattr (snd (?cells1 ! i)) ?fd (PyInt num) = Inr (snd (cells1' ! i))
              \<and> getattr (snd (cells1' ! i)) (name ?fd) = Inr (PyInt num)"
    by auto
  from c1(2) [rule_format, of 0]
  have i': "cells1' ! 0 = (False, concrete_class enum_message_type)" by simp
  from c(1,2) [unfolded l] g g' p p' n' c1(1) [unfolded l] i' d show ?thesis by blast
qed

text \<open>
  Claim C10. The leniency for unknown enum names does not reach repeated enum fields. A batch
  whose repeated enum column (binary or string representation) holds a name that is no value of
  the enum makes \<^const>\<open>record_batch_to_messages\<close> raise: \<^const>\<open>convert_enum\<close> yields
  \<^const>\<open>PyNone\<close> for the name, and appending \<^const>\<open>PyNone\<close> to the repeated scalar field is a
  \<^const>\<open>TypeError\<close>. The same name in a singular enum column is skipped and the message keeps
  its default.
\<close>

theorem repeated_enum_unknown_name_raises:
  "record_batch_to_messages (RecordBatch
     [pa_field ''colors'' (pa_list (pa_field ''item'' pa_binary False)) True]
     [ListArray (pa_list (pa_field ''item'' pa_binary False)) [0, 1] [True]
        (Array pa_binary [PyBytes ''PURPLE''])] 1) enum_message_type = Inl TypeError
   \<and> record_batch_to_messages (RecordBatch
     [pa_field ''colors'' (pa_list (pa_field ''item'' pa_string False)) True]
     [ListArray (pa_list (pa_field ''item'' pa_string False)) [0, 1] [True]
        (Array pa_string [PyStr ''PURPLE''])] 1) enum_message_type = Inl TypeError
   \<and> convert_enum Example_Color (pa_binary, PyBytes ''PURPLE'') = Inr PyNone
   \<and> append (concrete_class enum_message_type)
        (FieldDescriptor ''colors'' TYPE_ENUM LABEL_REPEATED None (Some Example_Color)) PyNone
       = Inl TypeError
   \<and> record_batch_to_messages (RecordBatch
     [pa_field ''color'' pa_binary False]
     [Array pa_binary [PyBytes ''PURPLE'']] 1) enum_message_type
       = Inr [concrete_class enum_message_type]"
  by code_simp

section \<open>Wrapper fields\<close>

lemma message_fields_to_arrays_Cons:
  "message_fields_to_arrays records (field # fs) config =
     and_then (field_column records field config) (\<lambda>array.
       and_then (message_fields_to_arrays records fs config) (\<lambda>rest.
         Inr ((array, pa_field (name field) (array_type array)
                (proto_field_nullable field True)) # rest)))"
  by (simp add: field_column_def)

lemma column_of_field:
  "message_fields_to_arrays records fs config = Inr cols \<Longrightarrow> i < length fs \<Longrightarrow>
     field_column records (fs ! i) config = Inr (fst (cols ! i))"
proof (induction fs arbitrary: cols i)
  case Nil
  then show ?case by simp
next
  case (Cons f fs)
  from Cons.prems(1) obtain a rest where
    a: "field_column records f config = Inr a"
    and rest: "message_fields_to_arrays records fs config = Inr rest"
    and cols: "cols = (a, pa_field (name f) (array_type a) (proto_field_nullable f True)) # rest"
    unfolding message_fields_to_arrays_Cons by (auto simp: and_then_eq_Inr)
  show ?case
  proof (cases i)
    case 0
    with a cols show ?thesis by simp
  next
    case (Suc k)
    with Cons.prems(2) have "k < length fs" by simp
    from Cons.IH [OF rest this] Suc cols show ?thesis by simp
  qed
qed

lemma wrapper_cases:
  assumes "d \<in> set NULLABLE_TYPES"
  obtains n vt pt where "d = Descriptor n [scalar_field ''value'' vt] False"
    "PROTO_DESCRIPTOR_TO_PYARROW d = Some pt" "PROTO_PRIMITIVE_TYPE_TO_PYARROW vt = Some pt"
    "SPECIAL_TYPES (Some d) = None"
    "PROTO_DESCRIPTOR_TO_ARROW_CONVERTER (Some d) = Some (\<lambda>x. getattr x ''value'')"
    "\<forall>u. pt \<noteq> pa_time64 u" "\<forall>u tz. pt \<noteq> pa_timestamp u tz"
    "\<forall>v. v \<noteq> PyNone \<longrightarrow> fits pt v \<longrightarrow> check_value vt v = Inr v"
    "vt \<noteq> TYPE_MESSAGE" "vt \<noteq> TYPE_ENUM"
proof -
  have "\<exists>n vt pt. d = Descriptor n [scalar_field ''value'' vt] False
    \<and> PROTO_DESCRIPTOR_TO_PYARROW d = Some pt \<and> PROTO_PRIMITIVE_TYPE_TO_PYARROW vt = Some pt
    \<and> SPECIAL_TYPES (Some d) = None
    \<and> PROTO_DESCRIPTOR_TO_ARROW_CONVERTER (Some d) = Some (\<lambda>x. getattr x ''value'')
    \<and> (\<forall>u. pt \<noteq> pa_time64 u) \<and> (\<forall>u tz. pt \<noteq> pa_timestamp u tz)
    \<and> (\<forall>v. v \<noteq> PyNone \<longrightarrow> fits pt v \<longrightarrow> check_value vt v = Inr v)
    \<and> vt \<noteq> TYPE_MESSAGE \<and> vt \<noteq> TYPE_ENUM"
    using assms unfolding NULLABLE_TYPES_def
    by (auto simp: descriptor_defs PROTO_DESCRIPTOR_TO_PYARROW_def
        PROTO_PRIMITIVE_TYPE_TO_PYARROW_def SPECIAL_TYPES_def
        PROTO_DESCRIPTOR_TO_ARROW_CONVERTER_def fits_def check_value_def check_int_def
        int_fits_def split: pvalue.splits)
  then show ?thesis using that by blast
qed

lemma convert_loop_mask:
  "length m = i + length rs \<Longrightarrow> PyNone \<notin> set rs \<Longrightarrow>
   convert_loop c nv (Some m) i rs
     = traverse (\<lambda>(b, r). if b then c r else Inr nv) (zip (drop i m) rs)"
proof (induction rs arbitrary: i)
  case Nil
  then show ?case by simp
next
  case (Cons r rs)
  from Cons.prems have i: "i < length m" by simp
  then have d: "drop i m = m ! i # drop (Suc i) m" by (simp add: Cons_nth_drop_Suc)
  from Cons.prems have "convert_loop c nv (Some m) (Suc i) rs
     = traverse (\<lambda>(b, r). if b then c r else Inr nv) (zip (drop (Suc i) m) rs)"
    by (intro Cons.IH) auto
  with Cons.prems i show ?case by (auto simp: d)
qed


lemma holds_wrapperE:
  assumes "holds_wrapper n m"
  obtains fs p w where "m = Message fs" "map_of fs n = Some (Submessage p w)"
    "getattr w ''value'' = Inr (wrapper_value n m)" "wrapper_value n m \<noteq> PyNone"
    "wrapper_present n m = p"
  using assms unfolding holds_wrapper_def get_slot_def wrapper_value_def wrapper_present_def
  by (auto split: pvalue.splits option.splits sum.splits)

lemma not_holds_wrapper_None [simp]: "\<not> holds_wrapper n PyNone"
  by (simp add: holds_wrapper_def get_slot_def)

lemma holds_wrapper_facts:
  assumes "holds_wrapper n m"
  shows "HasField m n = Inr (wrapper_present n m)"
    "\<exists>w. getattr m n = Inr w \<and> w \<noteq> PyNone \<and> getattr w ''value'' = Inr (wrapper_value n m)"
    "wrapper_value n m \<noteq> PyNone" "m \<noteq> PyNone"
  using assms
  by (auto elim!: holds_wrapperE simp: HasField_def getattr_def)

lemma wrapper_column:
  assumes f: "ftype f = TYPE_MESSAGE" "label f \<noteq> LABEL_REPEATED" "message_type f = Some d"
      "d \<in> set NULLABLE_TYPES"
    and rs: "list_all (holds_wrapper (name f)) rs"
    and a: "field_column (Inr rs) f cfg = Inr a"
  shows "\<exists>pt. PROTO_DESCRIPTOR_TO_PYARROW d = Some pt
     \<and> a = Array pt (map (\<lambda>r. if wrapper_present (name f) r then wrapper_value (name f) r
                               else PyNone) rs)"
proof -
  from f(4) obtain n vt pt where d: "d = Descriptor n [scalar_field ''value'' vt] False"
    "PROTO_DESCRIPTOR_TO_PYARROW d = Some pt"
    "PROTO_DESCRIPTOR_TO_ARROW_CONVERTER (Some d) = Some (\<lambda>x. getattr x ''value'')"
    by (rule wrapper_cases)
  let ?n = "name f"
  have nm: "\<not> is_map_field f" using f(3) d(1) by (simp add: is_map_field_def)
  have r: "\<And>r. r \<in> set rs \<Longrightarrow> holds_wrapper ?n r" using rs by (simp add: list_all_iff)
  have mask: "proto_field_validity_mask (Inr rs) f = Inr (Some (map (wrapper_present ?n) rs))"
  proof -
    have "traverse (\<lambda>record. if record = PyNone then Inr False else HasField record ?n) rs
        = Inr (map (wrapper_present ?n) rs)"
    proof (rule traverse_map_Inr)
      fix x assume "x \<in> set rs"
      then have "holds_wrapper ?n x" by (rule r)
      from holds_wrapper_facts(1,4) [OF this]
      show "(if x = PyNone then Inr False else HasField x ?n) = Inr (wrapper_present ?n x)"
        by simp
    qed
    then show ?thesis using f by (simp add: proto_field_validity_mask_def)
  qed
  define w where "w = (\<lambda>r. case getattr r ?n of Inr x \<Rightarrow> x | Inl e \<Rightarrow> PyNone)"
  have wr: "\<And>r. r \<in> set rs \<Longrightarrow> getattr r ?n = Inr (w r) \<and> w r \<noteq> PyNone
      \<and> getattr (w r) ''value'' = Inr (wrapper_value ?n r)"
  proof -
    fix x assume "x \<in> set rs"
    then have "holds_wrapper ?n x" by (rule r)
    from holds_wrapper_facts(2) [OF this] obtain y where
      "getattr x ?n = Inr y" "y \<noteq> PyNone" "getattr y ''value'' = Inr (wrapper_value ?n x)"
      by blast
    then show "getattr x ?n = Inr (w x) \<and> w x \<noteq> PyNone
      \<and> getattr (w x) ''value'' = Inr (wrapper_value ?n x)"
      by (simp add: w_def)
  qed
  have nested: "NestedIterable (Inr rs) (\<lambda>r. getattr r ?n) = Inr (map w rs)"
    unfolding NestedIterable_def using wr by (simp add: traverse_map_Inr)
  let ?ys = "map (\<lambda>r. if wrapper_present ?n r then wrapper_value ?n r else PyNone) rs"
  have loop: "convert_loop (\<lambda>x. getattr x ''value'') PyNone (Some (map (wrapper_present ?n) rs))
      0 (map w rs) = Inr ?ys"
  proof -
    have "PyNone \<notin> set (map w rs)"
    proof
      assume "PyNone \<in> set (map w rs)"
      then obtain x where "x \<in> set rs" "w x = PyNone" by auto
      with wr show False by blast
    qed
    then have "convert_loop (\<lambda>x. getattr x ''value'') PyNone
        (Some (map (wrapper_present ?n) rs)) 0 (map w rs)
       = traverse (\<lambda>(b, r). if b then getattr r ''value'' else Inr PyNone)
           (zip (map (wrapper_present ?n) rs) (map w rs))"
      by (subst convert_loop_mask) simp_all
    also have "zip (map (wrapper_present ?n) rs) (map w rs)
        = map (\<lambda>r. (wrapper_present ?n r, w r)) rs"
      by (induction rs) simp_all
    also have "traverse (\<lambda>(b, r). if b then getattr r ''value'' else Inr PyNone)
          (map (\<lambda>r. (wrapper_present ?n r, w r)) rs) = Inr ?ys"
      using wr by (induction rs) simp_all
    finally show ?thesis .
  qed
  from a have "pa_array ?ys pt = Inr a"
    using nm f mask nested loop d
    by (simp add: field_column_def proto_field_to_array.simps field_values_to_array_def)
  then have "a = Array pt ?ys" by (auto simp: pa_array_def split: if_splits)
  with d(2) show ?thesis by simp
qed

lemma check_value_scalar:
  "check_value t v = Inr v' \<Longrightarrow> v' = v \<and> v \<noteq> PyNone \<and> (\<forall>p s. v \<noteq> Submessage p s)"
  by (auto simp: check_value_def check_int_def split: if_splits pvalue.splits)

lemma getattr_value_Message:
  "getattr w n = Inr v \<Longrightarrow> \<exists>sfs old. w = Message sfs \<and> map_of sfs n = Some old"
  by (cases w) (auto simp: getattr_def split: option.splits)

lemma set_wrapper_value_ok:
  assumes f: "label f \<noteq> LABEL_REPEATED" "message_type f = Some d"
      "d = Descriptor n [scalar_field ''value'' vt] False"
    and m: "holds_wrapper (name f) m"
    and v: "check_value vt v = Inr v"
  shows "\<exists>m'. set_wrapper_value m f v = Inr m' \<and> HasField m' (name f) = Inr True
     \<and> and_then (getattr m' (name f)) (\<lambda>w. getattr w ''value'') = Inr v
     \<and> holds_wrapper (name f) m'"
proof -
  from m obtain fs p w where mw: "m = Message fs" "map_of fs (name f) = Some (Submessage p w)"
    "getattr w ''value'' = Inr (wrapper_value (name f) m)"
    by (rule holds_wrapperE)
  from getattr_value_Message [OF mw(3)] obtain sfs old where
    w: "w = Message sfs" "map_of sfs ''value'' = Some old" by blast
  from check_value_scalar [OF v] have vs: "v \<noteq> PyNone" "\<forall>p s. v \<noteq> Submessage p s" by simp_all
  let ?vf = "scalar_field ''value'' vt"
  let ?w' = "Message (sfs [index_of ''value'' (map fst sfs) := (''value'', v)])"
  let ?m' = "Message (fs [index_of (name f) (map fst fs) := (name f, Submessage True ?w')])"
  have vf: "fields_by_name d ''value'' = Inr ?vf"
    by (simp add: f(3) fields_by_name_def scalar_field_def)
  have s: "setattr w ?vf v = Inr ?w'"
    unfolding w(1) using setattr_Message [of sfs ?vf old v] w(2) v
    by (simp add: scalar_field_def)
  have 1: "set_wrapper_value m f v = Inr ?m'"
    using mw(2) f(2) vf s
    by (simp add: set_wrapper_value_def modify_field_def mw(1) update_slot_found)
  have slot: "map_of (fs [index_of (name f) (map fst fs) := (name f, Submessage True ?w')])
      (name f) = Some (Submessage True ?w')"
    by (rule map_of_update_index [OF mw(2)])
  have g: "getattr ?w' ''value'' = Inr v"
    by (rule getattr_update_index [OF w(2) vs(2)])
  have 2: "HasField ?m' (name f) = Inr True" using slot by (simp add: HasField_def)
  have 3: "and_then (getattr ?m' (name f)) (\<lambda>w. getattr w ''value'') = Inr v"
    using slot g by (simp add: getattr_def)
  have 4: "holds_wrapper (name f) ?m'"
    using slot g vs(1) by (simp add: holds_wrapper_def get_slot_def)
  from 1 2 3 4 show ?thesis by blast
qed

lemma wrapper_row:
  assumes f: "ftype f = TYPE_MESSAGE" "label f \<noteq> LABEL_REPEATED" "message_type f = Some d"
      "d \<in> set NULLABLE_TYPES"
    and pt: "PROTO_DESCRIPTOR_TO_PYARROW d = Some pt" "fits pt x"
    and m: "holds_wrapper (name f) m"
  shows "\<exists>r. (if scalar_is_valid (pt, x)
          then PlainAssigner_call f convert_scalar True (pt, x) m else Inr None) = Inr r
     \<and> (if x = PyNone then r = None
        else \<exists>m'. r = Some m' \<and> HasField m' (name f) = Inr True
          \<and> and_then (getattr m' (name f)) (\<lambda>w. getattr w ''value'') = Inr x)"
proof (cases "x = PyNone")
  case True
  then show ?thesis by (simp add: scalar_is_valid_def)
next
  case False
  from f(4) obtain n vt pt' where d: "d = Descriptor n [scalar_field ''value'' vt] False"
    "PROTO_DESCRIPTOR_TO_PYARROW d = Some pt'"
    "\<forall>u. pt' \<noteq> pa_time64 u" "\<forall>u tz. pt' \<noteq> pa_timestamp u tz"
    "\<forall>v. v \<noteq> PyNone \<longrightarrow> fits pt' v \<longrightarrow> check_value vt v = Inr v"
    by (rule wrapper_cases)
  from d(2) pt(1) have [simp]: "pt' = pt" by simp
  from d(5) False pt(2) have chk: "check_value vt x = Inr x" by simp
  have py: "as_py (pt, x) = x" using d(3,4) by (cases pt) (simp_all add: as_py_def)
  from set_wrapper_value_ok [OF f(2,3) d(1) m chk] obtain m' where
    "set_wrapper_value m f x = Inr m'" "HasField m' (name f) = Inr True"
    "and_then (getattr m' (name f)) (\<lambda>w. getattr w ''value'') = Inr x"
    by blast
  with False show ?thesis
    by (simp add: scalar_is_valid_def PlainAssigner_call_def convert_scalar_def py)
qed

lemma extract_field_wrapper:
  assumes f: "ftype f = TYPE_MESSAGE" "label f \<noteq> LABEL_REPEATED" "message_type f = Some d"
      "d \<in> set NULLABLE_TYPES"
    and pt: "PROTO_DESCRIPTOR_TO_PYARROW d = Some pt"
  shows "extract_field (Array pt xs) f hs cells
     = assign_loop f (\<lambda>v m. if scalar_is_valid v
          then PlainAssigner_call f convert_scalar True v m else Inr None)
         (zip hs (map (Pair pt) xs)) cells"
proof -
  from f(4) obtain pt' where d: "PROTO_DESCRIPTOR_TO_PYARROW d = Some pt'"
    "SPECIAL_TYPES (Some d) = None" "\<forall>u. pt' \<noteq> pa_time64 u"
    by (rule wrapper_cases)
  from d(1) pt have [simp]: "pt' = pt" by simp
  have p: "prepare_array (Array pt xs) = Inr (Array pt xs)"
    using d(3) by (intro prepare_array_Array) simp
  have n: "in_NULLABLE_TYPES (message_type f) = True"
    using f(3,4) by (simp add: in_NULLABLE_TYPES_def)
  show ?thesis
    unfolding extract_field.simps p n using f d(2)
    by (simp add: get_converter_def in_NULLABLE_TYPES_def)
qed

text \<open>
  Claim C5. For a singular wrapper field the column of a built batch has the Arrow type of
  the wrapper's \<^verbatim>\<open>value\<close> field, one element for each message, and the element of row \<open>j\<close> is
  valid exactly when \<^verbatim>\<open>HasField\<close> holds of message \<open>j\<close>; a valid element is the wrapped
  value. Decoding such a column leaves the message of every null row as it was, so a field
  that was unset stays unset, and makes the field present with the element as its value in
  every other row.
\<close>

theorem wrapper_presence:
  assumes f: "ftype f = TYPE_MESSAGE" "label f \<noteq> LABEL_REPEATED" "message_type f = Some d"
      "d \<in> set NULLABLE_TYPES"
  shows "(messages_to_record_batch M T cfg = Inr batch \<and> i < length (fields T)
          \<and> fields T ! i = f \<and> list_all (holds_wrapper (name f)) M
        \<longrightarrow> (\<exists>vf. fields_by_name d ''value'' = Inr vf
               \<and> PROTO_PRIMITIVE_TYPE_TO_PYARROW (ftype vf)
                   = Some (array_type (columns batch ! i)))
            \<and> array_len (columns batch ! i) = length M
            \<and> (\<forall>j<length M.
                  is_valid (columns batch ! i) ! j = (HasField (M ! j) (name f) = Inr True)
                  \<and> (is_valid (columns batch ! i) ! j \<longrightarrow>
                       and_then (getattr (M ! j) (name f)) (\<lambda>w. getattr w ''value'')
                         = Inr (snd (scalars (columns batch ! i) ! j)))))
     \<and> (PROTO_DESCRIPTOR_TO_PYARROW d = Some pt \<and> list_all (fits pt) xs
          \<and> length cells = length xs \<and> list_all (\<lambda>c. holds_wrapper (name f) (snd c)) cells
        \<longrightarrow> (\<exists>cells'. extract_field (Array pt xs) f (map Some [0..<length xs]) cells = Inr cells'
               \<and> length cells' = length xs
               \<and> (\<forall>j<length xs.
                    if is_valid (Array pt xs) ! j
                    then HasField (snd (cells' ! j)) (name f) = Inr True
                         \<and> and_then (getattr (snd (cells' ! j)) (name f))
                             (\<lambda>w. getattr w ''value'') = Inr (xs ! j)
                    else cells' ! j = cells ! j)))"
proof (intro conjI impI; (elim conjE)?)
  assume b: "messages_to_record_batch M T cfg = Inr batch" and i: "i < length (fields T)"
    and fi: "fields T ! i = f" and M: "list_all (holds_wrapper (name f)) M"
  from b obtain cols where
    cols: "message_fields_to_arrays (Inr M) (fields T) cfg = Inr cols"
    and cs: "columns batch = map fst cols"
    by (rule record_batch_Inr)
  from schema_of_fields [OF cols] have lc: "length cols = length (fields T)" by simp
  from column_of_field [OF cols i] fi cs i lc
  have col: "field_column (Inr M) f cfg = Inr (columns batch ! i)" by simp
  let ?ys = "map (\<lambda>r. if wrapper_present (name f) r then wrapper_value (name f) r else PyNone) M"
  from wrapper_column [OF f M col] obtain pt' where
    pt': "PROTO_DESCRIPTOR_TO_PYARROW d = Some pt'" "columns batch ! i = Array pt' ?ys"
    by blast
  from f(4) obtain n vt pt'' where d: "d = Descriptor n [scalar_field ''value'' vt] False"
    "PROTO_DESCRIPTOR_TO_PYARROW d = Some pt''" "PROTO_PRIMITIVE_TYPE_TO_PYARROW vt = Some pt''"
    by (rule wrapper_cases)
  from d(2) pt'(1) have [simp]: "pt'' = pt'" by simp
  have "fields_by_name d ''value'' = Inr (scalar_field ''value'' vt)"
    by (simp add: d(1) fields_by_name_def scalar_field_def)
  then show "\<exists>vf. fields_by_name d ''value'' = Inr vf
      \<and> PROTO_PRIMITIVE_TYPE_TO_PYARROW (ftype vf) = Some (array_type (columns batch ! i))"
    using d(3) pt'(2) by (simp add: scalar_field_def)
  show "array_len (columns batch ! i) = length M" by (simp add: pt'(2))
  show "\<forall>j<length M.
      is_valid (columns batch ! i) ! j = (HasField (M ! j) (name f) = Inr True)
      \<and> (is_valid (columns batch ! i) ! j \<longrightarrow>
           and_then (getattr (M ! j) (name f)) (\<lambda>w. getattr w ''value'')
             = Inr (snd (scalars (columns batch ! i) ! j)))"
  proof (intro allI impI)
    fix j assume j: "j < length M"
    with M have h: "holds_wrapper (name f) (M ! j)" by (simp add: list_all_length)
    from holds_wrapper_facts [OF h] j
    show "is_valid (columns batch ! i) ! j = (HasField (M ! j) (name f) = Inr True)
      \<and> (is_valid (columns batch ! i) ! j \<longrightarrow>
           and_then (getattr (M ! j) (name f)) (\<lambda>w. getattr w ''value'')
             = Inr (snd (scalars (columns batch ! i) ! j)))"
      by (auto simp: pt'(2))
  qed
next
  assume pt: "PROTO_DESCRIPTOR_TO_PYARROW d = Some pt" and xs: "list_all (fits pt) xs"
    and len: "length cells = length xs"
    and cells: "list_all (\<lambda>c. holds_wrapper (name f) (snd c)) cells"
  let ?call = "\<lambda>v m. if scalar_is_valid v
      then PlainAssigner_call f convert_scalar True v m else Inr None"
  let ?rows = "zip cells (zip (replicate (length xs) True) (map (Pair pt) xs))"
  have row: "\<And>j. j < length xs \<Longrightarrow> \<exists>r. ?call (pt, xs ! j) (snd (cells ! j)) = Inr r
     \<and> (if xs ! j = PyNone then r = None
        else \<exists>m'. r = Some m' \<and> HasField m' (name f) = Inr True
          \<and> and_then (getattr m' (name f)) (\<lambda>w. getattr w ''value'') = Inr (xs ! j))"
  proof -
    fix j assume j: "j < length xs"
    with xs have x: "fits pt (xs ! j)" by (simp add: list_all_length)
    from cells j len have c: "holds_wrapper (name f) (snd (cells ! j))"
      by (simp add: list_all_length)
    from wrapper_row [OF f pt x c]
    show "\<exists>r. ?call (pt, xs ! j) (snd (cells ! j)) = Inr r
     \<and> (if xs ! j = PyNone then r = None
        else \<exists>m'. r = Some m' \<and> HasField m' (name f) = Inr True
          \<and> and_then (getattr m' (name f)) (\<lambda>w. getattr w ''value'') = Inr (xs ! j))" .
  qed
  have ok: "list_all (row_ok f ?call) ?rows"
    unfolding list_all_length
  proof (intro allI impI)
    fix j assume "j < length ?rows"
    with len have j: "j < length xs" by simp
    from row [OF j] show "row_ok f ?call (?rows ! j)"
      using j len by (auto simp: row_ok_def)
  qed
  have ex: "extract_field (Array pt xs) f (map Some [0..<length xs]) cells
      = Inr (map (row_write ?call) ?rows)"
    unfolding extract_field_wrapper [OF f pt]
    using assign_loop_rowwise [OF _ _ ok] len all_handles [of 0 "length xs"] by simp
  show "\<exists>cells'. extract_field (Array pt xs) f (map Some [0..<length xs]) cells = Inr cells'
     \<and> length cells' = length xs
     \<and> (\<forall>j<length xs.
          if is_valid (Array pt xs) ! j
          then HasField (snd (cells' ! j)) (name f) = Inr True
               \<and> and_then (getattr (snd (cells' ! j)) (name f))
                   (\<lambda>w. getattr w ''value'') = Inr (xs ! j)
          else cells' ! j = cells ! j)"
  proof (intro exI conjI allI impI)
    show "extract_field (Array pt xs) f (map Some [0..<length xs]) cells
      = Inr (map (row_write ?call) ?rows)" by (rule ex)
    show "length (map (row_write ?call) ?rows) = length xs" using len by simp
  next
    fix j assume j: "j < length xs"
    from row [OF j] obtain r where r: "?call (pt, xs ! j) (snd (cells ! j)) = Inr r"
      "if xs ! j = PyNone then r = None
        else \<exists>m'. r = Some m' \<and> HasField m' (name f) = Inr True
          \<and> and_then (getattr m' (name f)) (\<lambda>w. getattr w ''value'') = Inr (xs ! j)"
      by blast
    have w: "map (row_write ?call) ?rows ! j
        = (case r of None \<Rightarrow> cells ! j | Some m' \<Rightarrow> (True, m'))"
      using j len r(1) by (simp add: row_write_def split: option.splits)
    show "if is_valid (Array pt xs) ! j
          then HasField (snd (map (row_write ?call) ?rows ! j)) (name f) = Inr True
               \<and> and_then (getattr (snd (map (row_write ?call) ?rows ! j)) (name f))
                   (\<lambda>w. getattr w ''value'') = Inr (xs ! j)
          else map (row_write ?call) ?rows ! j = cells ! j"
      using r(2) j unfolding w by (auto split: if_splits)
  qed
qed

theorem wrapper_presence_witness:
  "messages_to_record_batch [example_message, concrete_class Example_Outer] Example_Outer
       default_config = Inr example_batch
   \<and> array_type (columns example_batch ! 3) = pa_int32
   \<and> HasField example_message ''w'' = Inr True
   \<and> is_valid (columns example_batch ! 3) ! 0
   \<and> HasField (concrete_class Example_Outer) ''w'' = Inr False
   \<and> \<not> is_valid (columns example_batch ! 3) ! 1
   \<and> (\<exists>cells'. extract_field (Array pa_int32 [PyInt 0, PyNone])
          (FieldDescriptor ''w'' TYPE_MESSAGE LABEL_OPTIONAL (Some Int32Value_DESCRIPTOR) None)
          (map Some [0..<2]) (replicate 2 (False, concrete_class Example_Outer)) = Inr cells'
        \<and> HasField (snd (cells' ! 0)) ''w'' = Inr True
        \<and> and_then (getattr (snd (cells' ! 0)) ''w'') (\<lambda>w. getattr w ''value'') = Inr (PyInt 0)
        \<and> cells' ! 1 = (False, concrete_class Example_Outer))"
proof -
  let ?f = "FieldDescriptor ''w'' TYPE_MESSAGE LABEL_OPTIONAL (Some Int32Value_DESCRIPTOR) None"
  let ?M = "[example_message, concrete_class Example_Outer]"
  let ?xs = "[PyInt 0, PyNone]"
  let ?cells = "replicate 2 (False, concrete_class Example_Outer)"
  have d: "Int32Value_DESCRIPTOR \<in> set NULLABLE_TYPES" by (simp add: NULLABLE_TYPES_def)
  have i: "3 < length (fields Example_Outer)" "fields Example_Outer ! 3 = ?f"
    by code_simp+
  have M: "list_all (holds_wrapper (name ?f)) ?M" by code_simp
  have pt: "PROTO_DESCRIPTOR_TO_PYARROW Int32Value_DESCRIPTOR = Some pa_int32" by code_simp
  have xs: "list_all (fits pa_int32) ?xs" by code_simp
  have cells: "list_all (\<lambda>c. holds_wrapper (name ?f) (snd c)) ?cells" by code_simp
  have h: "HasField example_message ''w'' = Inr True"
    "HasField (concrete_class Example_Outer) ''w'' = Inr False"
    by code_simp+
  have l: "length ?xs = 2" "length ?M = 2" by simp_all
  note w = wrapper_presence [of ?f Int32Value_DESCRIPTOR ?M Example_Outer default_config
      example_batch 3 pa_int32 ?xs ?cells, OF _ _ _ d]
  have enc: "(\<exists>vf. fields_by_name Int32Value_DESCRIPTOR ''value'' = Inr vf
               \<and> PROTO_PRIMITIVE_TYPE_TO_PYARROW (ftype vf)
                   = Some (array_type (columns example_batch ! 3)))
            \<and> (\<forall>j<length ?M.
                  is_valid (columns example_batch ! 3) ! j = (HasField (?M ! j) (name ?f) = Inr True)
                  \<and> (is_valid (columns example_batch ! 3) ! j \<longrightarrow>
                       and_then (getattr (?M ! j) (name ?f)) (\<lambda>w. getattr w ''value'')
                         = Inr (snd (scalars (columns example_batch ! 3) ! j))))"
    using w example_build i M by simp
  from enc have t: "array_type (columns example_batch ! 3) = pa_int32"
    by (auto simp: Int32Value_DESCRIPTOR_def wrapper_descriptor_def fields_by_name_def
        scalar_field_def PROTO_PRIMITIVE_TYPE_TO_PYARROW_def)
  from enc have v: "\<forall>j<2. is_valid (columns example_batch ! 3) ! j
      = (HasField (?M ! j) ''w'' = Inr True)" by simp
  from v [rule_format, of 0] h(1) have v0: "is_valid (columns example_batch ! 3) ! 0" by simp
  from v [rule_format, of 1] h(2) have v1: "\<not> is_valid (columns example_batch ! 3) ! 1" by simp
  from w pt xs cells obtain cells' where c:
    "extract_field (Array pa_int32 ?xs) ?f (map Some [0..<length ?xs]) ?cells = Inr cells'"
    "\<forall>j<length ?xs.
        if is_valid (Array pa_int32 ?xs) ! j
        then HasField (snd (cells' ! j)) (name ?f) = Inr True
             \<and> and_then (getattr (snd (cells' ! j)) (name ?f))
                 (\<lambda>w. getattr w ''value'') = Inr (?xs ! j)
        else cells' ! j = ?cells ! j"
    by auto
  from c(2) [rule_format, of 0]
  have c0: "HasField (snd (cells' ! 0)) ''w'' = Inr True"
    "and_then (getattr (snd (cells' ! 0)) ''w'') (\<lambda>w. getattr w ''value'') = Inr (PyInt 0)"
    by simp_all
  from c(2) [rule_format, of 1]
  have c1: "cells' ! 1 = (False, concrete_class Example_Outer)" by simp
  from example_build t h v0 v1 c(1) [unfolded l] c0 c1 show ?thesis by blast
qed

section \<open>Map columns with sub-message values\<close>

lemma chunks_nth:
  "p < length ns \<Longrightarrow> chunks ns xs ! p = take (ns ! p) (drop (sum_list (take p ns)) xs)"
proof (induction ns arbitrary: p xs)
  case Nil
  then show ?case by simp
next
  case (Cons n ns)
  show ?case
  proof (cases p)
    case 0
    then show ?thesis by simp
  next
    case (Suc q)
    with Cons.prems have "q < length ns" by simp
    from Cons.IH [OF this, of "drop n xs"] Suc show ?thesis by (simp add: add.commute)
  qed
qed


lemma get_slot_set_slot:
  "get_slot m n = Some old \<Longrightarrow> get_slot (set_slot m n v) n = Some v"
proof (cases m)
  case (Message fs)
  assume "get_slot m n = Some old"
  with Message have "map_of fs n = Some old" by (simp add: get_slot_def)
  then have "map_of (map (\<lambda>(k, x). if k = n then (k, v) else (k, x)) fs) n = Some v"
    by (induction fs) (auto split: if_splits)
  with Message show ?thesis by (simp add: get_slot_def set_slot_def)
qed (simp_all add: get_slot_def)


lemma assign_loop_group:
  assumes "p < length cells"
  shows "assign_loop fd call (zip (replicate (length xs) (Some p) @ hs) (xs @ ys)) cells
     = and_then (write_all call xs (cells ! p))
         (\<lambda>c'. assign_loop fd call (zip hs ys) (cells [p := c']))"
  using assms
proof (induction xs arbitrary: cells)
  case Nil
  then show ?case by simp
next
  case (Cons x xs)
  show ?case
  proof (cases "call x (snd (cells ! p))")
    case (Inl e)
    with Cons.prems show ?thesis by (simp add: write_cell_def)
  next
    case (Inr r)
    show ?thesis
    proof (cases r)
      case None
      with Inr Cons.prems Cons.IH [of cells] show ?thesis by (simp add: write_cell_def)
    next
      case (Some m')
      from Cons.prems have "p < length (cells [p := (True, m')])" by simp
      from Cons.IH [OF this] Some Inr Cons.prems show ?thesis by (simp add: write_cell_def)
    qed
  qed
qed

lemma assign_loop_groups_aux:
  assumes "length cs = length xss"
  shows "assign_loop fd call
       (zip (concat (map (\<lambda>(j, xs). replicate (length xs) (Some (length pre + j)))
                      (zip [0..<length xss] xss)))
            (concat xss)) (pre @ cs)
     = and_then (traverse (\<lambda>(c, xs). write_all call xs c) (zip cs xss))
         (\<lambda>cs'. Inr (pre @ cs'))"
  using assms
proof (induction xss arbitrary: pre cs)
  case Nil
  then show ?case by simp
next
  case (Cons xs xss)
  then obtain c cs' where cs: "cs = c # cs'" "length cs' = length xss" by (cases cs) auto
  have sh: "map (\<lambda>(j, xs). replicate (length xs) (Some (length pre + j)))
        (zip [0..<length (xs # xss)] (xs # xss))
      = replicate (length xs) (Some (length pre))
        # map (\<lambda>(j, xs). replicate (length xs) (Some (length (pre @ [c]) + j)))
            (zip [0..<length xss] xss)"
  proof -
    have "[0..<length (xs # xss)] = 0 # map Suc [0..<length xss]"
      by (simp add: upt_conv_Cons map_Suc_upt del: upt_Suc)
    then show ?thesis by (simp add: zip_map1 comp_def case_prod_unfold)
  qed
  have p: "length pre < length (pre @ c # cs')" by simp
  have step: "assign_loop fd call
       (zip (replicate (length xs) (Some (length pre))
             @ concat (map (\<lambda>(j, xs). replicate (length xs) (Some (length (pre @ [c]) + j)))
                        (zip [0..<length xss] xss)))
            (xs @ concat xss)) (pre @ c # cs')
     = and_then (write_all call xs c)
         (\<lambda>c'. assign_loop fd call
            (zip (concat (map (\<lambda>(j, xs). replicate (length xs) (Some (length (pre @ [c']) + j)))
                        (zip [0..<length xss] xss)))
                 (concat xss)) ((pre @ [c']) @ cs'))"
    using assign_loop_group [OF p, of fd call xs _ "concat xss"] by simp
  show ?case
  proof (cases "write_all call xs c")
    case (Inl e)
    with step show ?thesis unfolding cs(1) sh by simp
  next
    case (Inr b)
    from Cons.IH [OF cs(2), of "pre @ [b]"] step Inr show ?thesis
      unfolding cs(1) sh
      by (cases "traverse (\<lambda>(c, xs). write_all call xs c) (zip cs' xss)") simp_all
  qed
qed

lemma assign_loop_groups:
  assumes "length cs = length xss"
  shows "assign_loop fd call
       (zip (concat (map (\<lambda>(j, xs). replicate (length xs) (Some j)) (zip [0..<length xss] xss)))
            (concat xss)) cs
     = traverse (\<lambda>(c, xs). write_all call xs c) (zip cs xss)"
proof -
  have "and_then (traverse (\<lambda>(c, xs). write_all call xs c) (zip cs xss)) Inr
      = traverse (\<lambda>(c, xs). write_all call xs c) (zip cs xss)"
    by (simp add: and_then_def split: sum.splits)
  with assign_loop_groups_aux [OF assms, of fd call "[]"] show ?thesis by simp
qed

lemma reserve_loop_assign:
  assumes "\<forall>(h, key) \<in> set hks. h \<noteq> None
      \<and> and_then (conv key) (check_value kt) = Inr (g key)"
  shows "reserve_loop fd kt conv dflt hks cells fake
     = and_then (assign_loop fd (reserve_key (name fd) dflt)
           (map (\<lambda>(h, key). (h, g key)) hks) cells)
         (\<lambda>cells'. Inr (map (\<lambda>(h, key). (h, g key)) hks, cells', fake))"
  using assms
proof (induction hks arbitrary: cells)
  case Nil
  then show ?case by simp
next
  case (Cons r hks)
  obtain h key where r: "r = (h, key)" by (cases r)
  from Cons.prems r obtain i where h: "h = Some i"
    and k: "and_then (conv key) (check_value kt) = Inr (g key)" by auto
  from k obtain k0 where k0: "conv key = Inr k0" "check_value kt k0 = Inr (g key)"
    by (auto simp: and_then_eq_Inr)
  from Cons.prems have rest: "\<forall>(h, key) \<in> set hks. h \<noteq> None
      \<and> and_then (conv key) (check_value kt) = Inr (g key)" by simp
  show ?case
  proof (cases "write_cell (Some i) fd (reserve_key (name fd) dflt (g key)) cells")
    case (Inl e)
    then show ?thesis by (simp add: r h k0)
  next
    case (Inr c1)
    from Cons.IH [OF rest, of c1] Inr show ?thesis
      by (cases "assign_loop fd (reserve_key (name fd) dflt)
            (map (\<lambda>(h, key). (h, g key)) hks) c1") (simp_all add: r h k0)
  qed
qed

lemma set_slot_set_slot: "set_slot (set_slot m n v) n v' = set_slot m n v'"
  by (cases m) (auto simp: set_slot_def)

lemma write_all_reserve:
  assumes "get_slot (snd c) n = Some (MapContainer kvs)"
  shows "write_all (reserve_key n dflt) ks c
     = Inr (if first_keys (map fst kvs) ks = [] then c
            else (True, set_slot (snd c) n
                   (MapContainer (kvs @ map (\<lambda>k. (k, dflt)) (first_keys (map fst kvs) ks)))))"
  using assms
proof (induction ks arbitrary: c kvs)
  case Nil
  then show ?case by simp
next
  case (Cons k ks)
  show ?case
  proof (cases "k \<in> set (map fst kvs)")
    case True
    with Cons.prems have "reserve_key n dflt k (snd c) = Inr None"
      by (simp add: reserve_key_def)
    with Cons.IH [OF Cons.prems] True show ?thesis by simp
  next
    case False
    let ?c' = "(True, set_slot (snd c) n (MapContainer (kvs @ [(k, dflt)])))"
    from False Cons.prems have r: "reserve_key n dflt k (snd c) = Inr (Some (snd ?c'))"
      by (simp add: reserve_key_def)
    have s: "get_slot (snd ?c') n = Some (MapContainer (kvs @ [(k, dflt)]))"
      using get_slot_set_slot [OF Cons.prems] by simp
    from Cons.IH [OF s] r False show ?thesis
      by (simp add: set_slot_set_slot)
  qed
qed

lemma differences_running:
  "j \<le> length kss \<Longrightarrow>
   differences (int (length (concat (take j kss))))
     (map (\<lambda>i. int (length (concat (take i kss)))) [Suc j..<Suc (length kss)])
   = map (\<lambda>ks. int (length ks)) (drop j kss)"
proof (induction "length kss - j" arbitrary: j)
  case 0
  then show ?case by simp
next
  case (Suc d)
  then have j: "j < length kss" by simp
  then have u: "[Suc j..<Suc (length kss)] = Suc j # [Suc (Suc j)..<Suc (length kss)]"
    by (simp add: upt_conv_Cons)
  from j have t: "take (Suc j) kss = take j kss @ [kss ! j]" by (rule take_Suc_conv_app_nth)
  from j have dr: "drop j kss = kss ! j # drop (Suc j) kss" by (simp add: Cons_nth_drop_Suc)
  from Suc(2) j have "d = length kss - Suc j" by simp
  from Suc(1) [OF this] j have ih: "differences (int (length (concat (take (Suc j) kss))))
     (map (\<lambda>i. int (length (concat (take i kss)))) [Suc (Suc j)..<Suc (length kss)])
   = map (\<lambda>ks. int (length ks)) (drop (Suc j) kss)" by simp
  show ?case unfolding u dr using ih by (simp add: t)
qed

lemma OffsetToSize_running:
  "OffsetToSize (map (\<lambda>j. int (length (concat (take j kss)))) [0..<Suc (length kss)])
   = Inr (map (\<lambda>ks. int (length ks)) kss)"
proof -
  have "[0..<Suc (length kss)] = 0 # [Suc 0..<Suc (length kss)]"
    by (rule upt_conv_Cons) simp
  then show ?thesis
    using differences_running [of 0 kss] by (simp add: OffsetToSize_def del: upt_Suc)
qed

lemma assigner_targets_rows:
  "assigner_targets (map Some [0..<length kss]) (map (\<lambda>ks. int (length ks)) kss)
   = concat (map (\<lambda>(j, ks). replicate (length ks) (Some j)) (zip [0..<length kss] kss))"
  by (simp add: assigner_targets_def zip_map_map comp_def case_prod_unfold)

lemma first_keys_Nil_iff: "first_keys [] ks = [] \<longleftrightarrow> ks = []"
  by (cases ks) simp_all

lemma zip_targets_rows:
  "zip (concat (map (\<lambda>(j, ks). replicate (length ks) (Some j)) (zip [0..<length kss] kss)))
       (concat kss)
   = concat (map (\<lambda>(j, ks). map (Pair (Some j)) ks) (zip [0..<length kss] kss))"
proof -
  have g: "zip (concat (map (\<lambda>(j, ks). replicate (length ks) (Some (b + j))) (zip [0..<length kss] kss)))
       (concat kss)
   = concat (map (\<lambda>(j, ks). map (Pair (Some (b + j))) ks) (zip [0..<length kss] kss))" for b :: nat
  proof (induction kss arbitrary: b)
    case Nil
    then show ?case by simp
  next
    case (Cons ks kss)
    have u: "[0..<length (ks # kss)] = 0 # map Suc [0..<length kss]"
      by (simp add: upt_conv_Cons map_Suc_upt del: upt_Suc)
    have r: "zip (replicate (length ks) (Some b)) ks = map (Pair (Some b)) ks"
      by (induction ks) simp_all
    from Cons [of "Suc b"] show ?case
      unfolding u by (simp add: zip_map1 comp_def case_prod_unfold r)
  qed
  from g [of 0] show ?thesis by simp
qed

lemma entries_of_reserved:
  "get_slot (snd c) n = Some (MapContainer []) \<Longrightarrow>
   entries_of n (reserved n dflt c ks) = map (\<lambda>k. (k, dflt)) (first_keys [] ks)"
  by (auto simp: reserved_def entries_of_def get_slot_set_slot)

lemma reserve_rows:
  assumes len: "length cells = length kss"
    and blank: "list_all (\<lambda>c. get_slot (snd c) (name fd) = Some (MapContainer [])) cells"
    and ks: "list_all (\<lambda>k. check_value kt (as_py (kty, k)) = Inr k) (concat kss)"
  shows "reserve_loop fd kt convert_scalar dflt
       (zip (assigner_targets (map Some [0..<length kss]) (map (\<lambda>ks. int (length ks)) kss))
            (scalars (Array kty (concat kss)))) cells []
     = Inr (concat (map (\<lambda>(j, ks). map (Pair (Some j)) ks) (zip [0..<length kss] kss)),
            map (\<lambda>(c, ks). reserved (name fd) dflt c ks) (zip cells kss), [])"
proof -
  let ?targets = "concat (map (\<lambda>(j, ks). replicate (length ks) (Some j))
      (zip [0..<length kss] kss))"
  let ?hks = "zip ?targets (map (Pair kty) (concat kss))"
  have ok: "\<forall>(h, key) \<in> set ?hks. h \<noteq> None
      \<and> and_then (convert_scalar key) (check_value kt) = Inr (snd key)"
  proof (clarify, intro conjI)
    fix h t k assume m: "(h, t, k) \<in> set ?hks"
    then have "h \<in> set ?targets" by (rule set_zip_leftD)
    then show "h \<noteq> None" by (auto dest!: set_zip_leftD)
    from m have "(t, k) \<in> set (map (Pair kty) (concat kss))" by (rule set_zip_rightD)
    then have "t = kty" "k \<in> set (concat kss)" by auto
    with ks show "and_then (convert_scalar (t, k)) (check_value kt) = Inr (snd (t, k))"
      by (auto simp: list_all_iff convert_scalar_def)
  qed
  have e: "map (\<lambda>(h, key). (h, snd key)) ?hks = zip ?targets (concat kss)"
    by (simp add: zip_map2 comp_def case_prod_unfold)
  have w: "traverse (\<lambda>(c, ks). write_all (reserve_key (name fd) dflt) ks c) (zip cells kss)
      = Inr (map (\<lambda>(c, ks). reserved (name fd) dflt c ks) (zip cells kss))"
  proof (rule traverse_map_Inr)
    fix x assume x: "x \<in> set (zip cells kss)"
    obtain c ks' where xc: "x = (c, ks')" by (cases x)
    with x have "c \<in> set cells" by (auto dest: set_zip_leftD)
    with blank have b: "get_slot (snd c) (name fd) = Some (MapContainer [])"
      by (simp add: list_all_iff)
    from write_all_reserve [OF b, of dflt ks']
    show "(case x of (c, ks) \<Rightarrow> write_all (reserve_key (name fd) dflt) ks c)
        = Inr (case x of (c, ks) \<Rightarrow> reserved (name fd) dflt c ks)"
      by (simp add: xc reserved_def first_keys_Nil_iff)
  qed
  show ?thesis
    unfolding assigner_targets_rows scalars_Array reserve_loop_assign [OF ok] e
    using assign_loop_groups [OF len, of fd "reserve_key (name fd) dflt"] w
    by (simp add: zip_targets_rows)
qed

lemma put_entries_reserved:
  assumes "get_slot (snd c) n = Some (MapContainer [])" "ks = [] \<longrightarrow> ch = []"
  shows "put_entries n (reserved n dflt c ks) ch
     = (fst c \<or> ks \<noteq> [],
        set_slot (snd c) n (MapContainer (zip (first_keys [] ks) (map snd ch))))"
proof (cases "ks = []")
  case True
  with assms show ?thesis by (simp add: reserved_def put_entries_def)
next
  case False
  with assms(1) show ?thesis
    by (simp add: reserved_def put_entries_def get_slot_set_slot set_slot_set_slot comp_def)
qed

lemma reserved_sizes:
  assumes "length cells = length kss"
    and "list_all (\<lambda>c. get_slot (snd c) n = Some (MapContainer [])) cells"
  shows "map (\<lambda>c. length (entries_of n c)) (map (\<lambda>(c, ks). reserved n dflt c ks) (zip cells kss))
     = map (\<lambda>ks. length (first_keys [] ks)) kss"
  using assms
proof (induction kss arbitrary: cells)
  case Nil
  then show ?case by simp
next
  case (Cons ks kss)
  then obtain c cs where "cells = c # cs" by (cases cells) auto
  with Cons show ?case by (simp add: entries_of_reserved)
qed

lemma reserved_children:
  assumes "length cells = length kss"
    and "list_all (\<lambda>c. get_slot (snd c) n = Some (MapContainer [])) cells"
  shows "concat (map (\<lambda>c. map (\<lambda>kv. (False, snd kv)) (entries_of n c))
            (map (\<lambda>(c, ks). reserved n dflt c ks) (zip cells kss)))
     = replicate (length (concat (map (first_keys []) kss))) (False, dflt)"
  using assms
proof (induction kss arbitrary: cells)
  case Nil
  then show ?case by simp
next
  case (Cons ks kss)
  then obtain c cs where c: "cells = c # cs" by (cases cells) auto
  have "map (\<lambda>kv. (False, snd kv)) (map (\<lambda>k. (k, dflt)) (first_keys [] ks))
      = replicate (length (first_keys [] ks)) (False, dflt)"
    by (induction "first_keys [] ks :: pvalue list") (simp_all add: map_replicate_const comp_def)
  with Cons c show ?case by (simp add: entries_of_reserved replicate_add)
qed

lemma reserved_nth:
  assumes "length cells = length kss" "j < length kss"
  shows "map (\<lambda>(c, ks). reserved n dflt c ks) (zip cells kss) ! j
     = reserved n dflt (cells ! j) (kss ! j)"
  using assms by simp

lemma reserved_base:
  assumes "length cells = length kss"
    and "list_all (\<lambda>c. get_slot (snd c) n = Some (MapContainer [])) cells"
  shows "child_base (\<lambda>c. length (entries_of n c))
       (map (\<lambda>(c, ks). reserved n dflt c ks) (zip cells kss)) j
     = length (concat (map (first_keys []) (take j kss)))"
proof -
  have "take j (map (\<lambda>c. length (entries_of n c))
        (map (\<lambda>(c, ks). reserved n dflt c ks) (zip cells kss)))
      = take j (map (\<lambda>ks. length (first_keys [] ks)) kss)"
    by (simp only: reserved_sizes [OF assms])
  then show ?thesis
    by (simp add: child_base_def take_map length_concat comp_def)
qed

lemma reserved_handles:
  assumes len: "length cells = length kss"
    and blank: "list_all (\<lambda>c. get_slot (snd c) n = Some (MapContainer [])) cells"
  shows "map (entry_handle n (map (\<lambda>(c, ks). reserved n dflt c ks) (zip cells kss)) [])
       (concat (map (\<lambda>(j, ks). map (Pair (Some j)) ks) (zip [0..<length kss] kss)))
     = concat (map (\<lambda>(j, ks). map (\<lambda>k. Some (length (concat (map (first_keys []) (take j kss)))
                                          + index_of k (first_keys [] ks))) ks)
                 (zip [0..<length kss] kss))"
proof -
  let ?cells' = "map (\<lambda>(c, ks). reserved n dflt c ks) (zip cells kss)"
  have per: "entry_handle n ?cells' [] (Some j, k)
        = Some (length (concat (map (first_keys []) (take j kss))) + index_of k (first_keys [] ks))"
    if m: "(j, ks) \<in> set (zip [0..<length kss] kss)" for j ks k
  proof -
    from m have j: "j < length kss" and ks: "ks = kss ! j"
      by (auto simp: set_zip)
    from j len blank have b: "get_slot (snd (cells ! j)) n = Some (MapContainer [])"
      by (simp add: list_all_length)
    have e: "map fst (entries_of n (?cells' ! j)) = first_keys [] ks"
      using reserved_nth [OF len j, of n dflt] entries_of_reserved [OF b, of dflt ks] ks
      by (simp add: comp_def)
    have l: "j < length ?cells'" using j len by simp
    show ?thesis
      unfolding entry_handle_def using l e reserved_base [OF len blank, of dflt j]
      by simp
  qed
  have eq: "map (\<lambda>z. map (entry_handle n ?cells' []) (case z of (j, ks) \<Rightarrow> map (Pair (Some j)) ks))
        (zip [0..<length kss] kss)
      = map (\<lambda>(j, ks). map (\<lambda>k. Some (length (concat (map (first_keys []) (take j kss)))
                                          + index_of k (first_keys [] ks))) ks)
                 (zip [0..<length kss] kss)"
    by (rule map_cong [OF refl]) (auto simp: per)
  have "map (entry_handle n ?cells' [])
       (concat (map (\<lambda>(j, ks). map (Pair (Some j)) ks) (zip [0..<length kss] kss)))
     = concat (map (\<lambda>z. map (entry_handle n ?cells' [])
          (case z of (j, ks) \<Rightarrow> map (Pair (Some j)) ks)) (zip [0..<length kss] kss))"
    by (simp add: map_concat comp_def)
  also have "\<dots> = concat (map (\<lambda>(j, ks). map (\<lambda>k. Some (length (concat (map (first_keys []) (take j kss)))
                                          + index_of k (first_keys [] ks))) ks)
                 (zip [0..<length kss] kss))"
    by (rule arg_cong [OF eq])
  finally show ?thesis .
qed

lemma put_back_rows:
  assumes len: "length cells = length kss"
    and blank: "list_all (\<lambda>c. get_slot (snd c) n = Some (MapContainer [])) cells"
  shows "map (\<lambda>(c, ch). put_entries n c ch)
       (zip (map (\<lambda>(c, ks). reserved n dflt c ks) (zip cells kss))
          (chunks (map (\<lambda>c. length (entries_of n c))
                     (map (\<lambda>(c, ks). reserved n dflt c ks) (zip cells kss))) children))
     = map (\<lambda>j. (fst (cells ! j) \<or> kss ! j \<noteq> [],
          set_slot (snd (cells ! j)) n
            (MapContainer (zip (first_keys [] (kss ! j))
               (map snd (take (length (first_keys [] (kss ! j)))
                  (drop (length (concat (map (first_keys []) (take j kss)))) children)))))))
         [0..<length kss]"
proof (rule nth_equalityI)
  let ?cells' = "map (\<lambda>(c, ks). reserved n dflt c ks) (zip cells kss)"
  let ?sizes = "map (\<lambda>c. length (entries_of n c)) ?cells'"
  show "length (map (\<lambda>(c, ch). put_entries n c ch) (zip ?cells' (chunks ?sizes children)))
      = length (map (\<lambda>j. (fst (cells ! j) \<or> kss ! j \<noteq> [],
          set_slot (snd (cells ! j)) n
            (MapContainer (zip (first_keys [] (kss ! j))
               (map snd (take (length (first_keys [] (kss ! j)))
                  (drop (length (concat (map (first_keys []) (take j kss)))) children)))))))
         [0..<length kss])"
    using len by simp
  fix j assume "j < length (map (\<lambda>(c, ch). put_entries n c ch)
      (zip ?cells' (chunks ?sizes children)))"
  with len have j: "j < length kss" by simp
  from j len blank have b: "get_slot (snd (cells ! j)) n = Some (MapContainer [])"
    by (simp add: list_all_length)
  have sz: "?sizes = map (\<lambda>ks. length (first_keys [] ks)) kss"
    by (rule reserved_sizes [OF len blank])
  have ch: "chunks ?sizes children ! j
      = take (length (first_keys [] (kss ! j)))
          (drop (length (concat (map (first_keys []) (take j kss)))) children)"
    unfolding sz using chunks_nth [of j "map (\<lambda>ks. length (first_keys [] ks)) kss" children] j
    by (simp add: take_map length_concat comp_def)
  have e: "kss ! j = [] \<longrightarrow> chunks ?sizes children ! j = []"
    unfolding ch by simp
  have "map (\<lambda>(c, ch). put_entries n c ch) (zip ?cells' (chunks ?sizes children)) ! j
      = put_entries n (reserved n dflt (cells ! j) (kss ! j)) (chunks ?sizes children ! j)"
    using j len by simp
  also have "\<dots> = (fst (cells ! j) \<or> kss ! j \<noteq> [],
        set_slot (snd (cells ! j)) n
          (MapContainer (zip (first_keys [] (kss ! j)) (map snd (chunks ?sizes children ! j)))))"
    by (rule put_entries_reserved [OF b e])
  also have "\<dots> = (fst (cells ! j) \<or> kss ! j \<noteq> [],
        set_slot (snd (cells ! j)) n
          (MapContainer (zip (first_keys [] (kss ! j))
             (map snd (take (length (first_keys [] (kss ! j)))
                (drop (length (concat (map (first_keys []) (take j kss)))) children))))))"
    by (simp only: ch)
  finally have r: "map (\<lambda>(c, ch). put_entries n c ch) (zip ?cells' (chunks ?sizes children)) ! j
      = (fst (cells ! j) \<or> kss ! j \<noteq> [],
        set_slot (snd (cells ! j)) n
          (MapContainer (zip (first_keys [] (kss ! j))
             (map snd (take (length (first_keys [] (kss ! j)))
                (drop (length (concat (map (first_keys []) (take j kss)))) children))))))" .
  show "map (\<lambda>(c, ch). put_entries n c ch) (zip ?cells' (chunks ?sizes children)) ! j
      = map (\<lambda>j. (fst (cells ! j) \<or> kss ! j \<noteq> [],
          set_slot (snd (cells ! j)) n
            (MapContainer (zip (first_keys [] (kss ! j))
               (map snd (take (length (first_keys [] (kss ! j)))
                  (drop (length (concat (map (first_keys []) (take j kss)))) children)))))))
         [0..<length kss] ! j"
    unfolding r using j by simp
qed

lemma extract_map_rows:
  assumes f: "message_type f = Some d" "fields_by_name d ''key'' = Inr kf"
      "fields_by_name d ''value'' = Inr vt" "is_custom_field vt" "message_type vt = Some vd"
    and kf: "ftype kf \<noteq> TYPE_ENUM" "ftype kf \<noteq> TYPE_MESSAGE"
    and keys: "list_all (\<lambda>k. check_value (ftype kf) (as_py (kty, k)) = Inr k) (concat kss)"
    and len: "length cells = length kss"
    and blank: "list_all (\<lambda>c. get_slot (snd c) (name f) = Some (MapContainer [])) cells"
  shows "extract_map_field
       (MapArray (map (\<lambda>j. int (length (concat (take j kss)))) [0..<Suc (length kss)]) valid
          (Array kty (concat kss)) items)
       f (map Some [0..<length kss]) cells
     = and_then
         (extract_array_messages items vd
            (concat (map (\<lambda>(j, ks). map (\<lambda>k. Some
                 (length (concat (map (first_keys []) (take j kss)))
                  + index_of k (first_keys [] ks))) ks) (zip [0..<length kss] kss)))
            (replicate (length (concat (map (first_keys []) kss))) (False, concrete_class vd)))
         (\<lambda>vals. Inr (map (\<lambda>j. (fst (cells ! j) \<or> kss ! j \<noteq> [],
            set_slot (snd (cells ! j)) (name f)
              (MapContainer (zip (first_keys [] (kss ! j))
                 (map snd (take (length (first_keys [] (kss ! j)))
                    (drop (length (concat (map (first_keys []) (take j kss)))) vals)))))))
           [0..<length kss]))"
proof -
  have conv: "get_converter kf = Inr convert_scalar"
    using kf by (simp add: get_converter_def)
  note rl = reserve_rows [OF len blank keys, of "concrete_class vd"]
  show ?thesis
  proof (cases items)
    case (StructArray fs cs svalid)
    show ?thesis
      unfolding extract_map_field.simps extract_array_messages.simps
      using f conv rl
      by (simp add: OffsetToSize_running StructArray reserved_children [OF len blank]
          reserved_handles [OF len blank] put_back_rows [OF len blank]
          del: upt_Suc map_map)
  qed (use f conv rl in \<open>simp_all add: extract_map_field.simps extract_array_messages.simps
        OffsetToSize_running del: upt_Suc\<close>)
qed

lemma first_keys_distinct:
  "distinct ks \<Longrightarrow> set seen \<inter> set ks = {} \<Longrightarrow> first_keys seen ks = ks"
proof (induction ks arbitrary: seen)
  case Nil
  then show ?case by simp
next
  case (Cons k ks)
  from Cons.prems have "set (seen @ [k]) \<inter> set ks = {}" by auto
  with Cons show ?case by auto
qed

lemma index_of_nth_distinct:
  "distinct ks \<Longrightarrow> i < length ks \<Longrightarrow> index_of (ks ! i) ks = i"
proof (induction ks arbitrary: i)
  case Nil
  then show ?case by simp
next
  case (Cons k ks)
  then show ?case by (cases i) auto
qed

lemma map_index_of_distinct:
  "distinct ks \<Longrightarrow> map (\<lambda>k. Some (b + index_of k ks)) ks = map Some [b..<b + length ks]"
proof (rule nth_equalityI)
  show "length (map (\<lambda>k. Some (b + index_of k ks)) ks) = length (map Some [b..<b + length ks])"
    by simp
  fix i assume d: "distinct ks" and "i < length (map (\<lambda>k. Some (b + index_of k ks)) ks)"
  then have i: "i < length ks" by simp
  with d show "map (\<lambda>k. Some (b + index_of k ks)) ks ! i = map Some [b..<b + length ks] ! i"
    by (simp add: index_of_nth_distinct)
qed

lemma distinct_rows_handles:
  assumes "list_all distinct kss"
  shows "concat (map (\<lambda>(j, ks). map (\<lambda>k. Some (length (concat (take j kss)) + index_of k ks)) ks)
                  (zip [0..<length kss] kss))
     = map Some [0..<length (concat kss)]"
  using assms
proof (induction kss rule: rev_induct)
  case Nil
  then show ?case by simp
next
  case (snoc ks kss)
  then have d: "distinct ks" and ds: "list_all distinct kss" by simp_all
  have z: "zip [0..<length (kss @ [ks])] (kss @ [ks])
      = zip [0..<length kss] kss @ [(length kss, ks)]"
    by simp
  have pre: "map (\<lambda>(j, ks'). map (\<lambda>k. Some (length (concat (take j (kss @ [ks]))) + index_of k ks')) ks')
        (zip [0..<length kss] kss)
      = map (\<lambda>(j, ks'). map (\<lambda>k. Some (length (concat (take j kss)) + index_of k ks')) ks')
        (zip [0..<length kss] kss)"
    by (rule map_cong [OF refl]) (auto simp: set_zip)
  have last: "map (\<lambda>k. Some (length (concat (take (length kss) (kss @ [ks]))) + index_of k ks)) ks
      = map Some [length (concat kss)..<length (concat kss) + length ks]"
    using map_index_of_distinct [OF d, of "length (concat kss)"] by simp
  have u: "[0..<length (concat (kss @ [ks]))]
      = [0..<length (concat kss)] @ [length (concat kss)..<length (concat kss) + length ks]"
    using upt_add_eq_append [of 0 "length (concat kss)" "length ks"] by simp
  have "concat (map (\<lambda>(j, ks'). map (\<lambda>k. Some (length (concat (take j (kss @ [ks])))
              + index_of k ks')) ks') (zip [0..<length (kss @ [ks])] (kss @ [ks])))
      = concat (map (\<lambda>(j, ks'). map (\<lambda>k. Some (length (concat (take j (kss @ [ks])))
              + index_of k ks')) ks') (zip [0..<length kss] kss))
        @ map (\<lambda>k. Some (length (concat (take (length kss) (kss @ [ks]))) + index_of k ks)) ks"
    unfolding z by simp
  also have "\<dots> = map Some [0..<length (concat kss)]
        @ map Some [length (concat kss)..<length (concat kss) + length ks]"
    unfolding pre last snoc.IH [OF ds] ..
  also have "\<dots> = map Some [0..<length (concat (kss @ [ks]))]"
    unfolding u by simp
  finally show ?case .
qed

lemma take_drop_concat_nth:
  "j < length kss \<Longrightarrow>
   take (length (kss ! j)) (drop (length (concat (take j kss))) (concat kss)) = kss ! j"
proof (induction kss arbitrary: j)
  case Nil
  then show ?case by simp
next
  case (Cons ks kss)
  then show ?case by (cases j) simp_all
qed

lemma zip_row_span:
  assumes "j < length kss"
  shows "zip (kss ! j) (map snd (take (length (kss ! j))
            (drop (length (concat (take j kss))) vals)))
     = take (length (kss ! j)) (drop (length (concat (take j kss)))
         (zip (concat kss) (map snd vals)))"
proof -
  have "take (length (kss ! j)) (drop (length (concat (take j kss)))
         (zip (concat kss) (map snd vals)))
      = zip (take (length (kss ! j)) (drop (length (concat (take j kss))) (concat kss)))
            (take (length (kss ! j)) (drop (length (concat (take j kss))) (map snd vals)))"
    by (simp add: take_zip drop_zip)
  then show ?thesis using take_drop_concat_nth [OF assms] by (simp add: take_map drop_map)
qed

text \<open>
  Claim C8. A map column whose values are plain sub-messages is given by the keys \<open>kss\<close> of
  each row, offsets that are the running totals of their numbers, and a value struct with
  one row for each key. Decoding it into messages with empty maps reserves, in the map of
  the row's message, an entry for each key of the row, one entry for a key that the row
  repeats, and extracts the value struct with row \<open>i\<close> written into the entry of the key of
  row \<open>i\<close>.

  When no row repeats a key, the value struct is decoded as if on its own, into one fresh
  message for each of its rows, and the map of message \<open>j\<close> is the span of message \<open>j\<close> in
  the list that pairs key \<open>i\<close> of the key column with the message decoded from row \<open>i\<close> of the
  value struct. In general the rows are written through handles: row \<open>i\<close> has the handle of
  the first occurrence of its key in its row of keys.
\<close>

theorem map_values_follow_keys:
  assumes f: "message_type f = Some d" "fields_by_name d ''key'' = Inr kf"
      "fields_by_name d ''value'' = Inr vt" "is_custom_field vt" "message_type vt = Some vd"
    and kf: "ftype kf \<noteq> TYPE_ENUM" "ftype kf \<noteq> TYPE_MESSAGE"
    and keys: "list_all (\<lambda>k. check_value (ftype kf) (as_py (kty, k)) = Inr k) (concat kss)"
    and len: "length cells = length kss"
    and blank: "list_all (\<lambda>c. get_slot (snd c) (name f) = Some (MapContainer [])) cells"
  shows "(list_all distinct kss \<longrightarrow>
       extract_map_field
         (MapArray (map (\<lambda>j. int (length (concat (take j kss)))) [0..<Suc (length kss)]) valid
            (Array kty (concat kss)) items)
         f (map Some [0..<length kss]) cells
       = and_then
           (extract_array_messages items vd (map Some [0..<length (concat kss)])
              (replicate (length (concat kss)) (False, concrete_class vd)))
           (\<lambda>vals. Inr (map (\<lambda>j. (fst (cells ! j) \<or> kss ! j \<noteq> [],
              set_slot (snd (cells ! j)) (name f)
                (MapContainer (take (length (kss ! j)) (drop (length (concat (take j kss)))
                   (zip (concat kss) (map snd vals)))))))
             [0..<length kss])))
     \<and> extract_map_field
         (MapArray (map (\<lambda>j. int (length (concat (take j kss)))) [0..<Suc (length kss)]) valid
            (Array kty (concat kss)) items)
         f (map Some [0..<length kss]) cells
       = and_then
           (extract_array_messages items vd
              (concat (map (\<lambda>(j, ks). map (\<lambda>k. Some
                   (length (concat (map (first_keys []) (take j kss)))
                    + index_of k (first_keys [] ks))) ks) (zip [0..<length kss] kss)))
              (replicate (length (concat (map (first_keys []) kss))) (False, concrete_class vd)))
           (\<lambda>vals. Inr (map (\<lambda>j. (fst (cells ! j) \<or> kss ! j \<noteq> [],
              set_slot (snd (cells ! j)) (name f)
                (MapContainer (zip (first_keys [] (kss ! j))
                   (map snd (take (length (first_keys [] (kss ! j)))
                      (drop (length (concat (map (first_keys []) (take j kss)))) vals)))))))
             [0..<length kss]))"
proof (intro conjI impI)
  note gen = extract_map_rows [OF f kf keys len blank, of valid items]
  show "extract_map_field
         (MapArray (map (\<lambda>j. int (length (concat (take j kss)))) [0..<Suc (length kss)]) valid
            (Array kty (concat kss)) items)
         f (map Some [0..<length kss]) cells
       = and_then
           (extract_array_messages items vd
              (concat (map (\<lambda>(j, ks). map (\<lambda>k. Some
                   (length (concat (map (first_keys []) (take j kss)))
                    + index_of k (first_keys [] ks))) ks) (zip [0..<length kss] kss)))
              (replicate (length (concat (map (first_keys []) kss))) (False, concrete_class vd)))
           (\<lambda>vals. Inr (map (\<lambda>j. (fst (cells ! j) \<or> kss ! j \<noteq> [],
              set_slot (snd (cells ! j)) (name f)
                (MapContainer (zip (first_keys [] (kss ! j))
                   (map snd (take (length (first_keys [] (kss ! j)))
                      (drop (length (concat (map (first_keys []) (take j kss)))) vals)))))))
             [0..<length kss]))"
    by (rule gen)
  assume d: "list_all distinct kss"
  have fk: "first_keys [] ks = ks" if "ks \<in> set kss" for ks
    using d that by (intro first_keys_distinct) (simp_all add: list_all_iff)
  have m: "map (first_keys []) kss = kss" by (rule map_idI) (rule fk)
  have mt: "map (first_keys []) (take j kss) = take j kss" for j
    by (rule map_idI) (auto dest: in_set_takeD intro: fk)
  have h: "concat (map (\<lambda>(j, ks). map (\<lambda>k. Some
                   (length (concat (map (first_keys []) (take j kss)))
                    + index_of k (first_keys [] ks))) ks) (zip [0..<length kss] kss))
      = map Some [0..<length (concat kss)]"
  proof -
    have "map (\<lambda>(j, ks). map (\<lambda>k. Some
                   (length (concat (map (first_keys []) (take j kss)))
                    + index_of k (first_keys [] ks))) ks) (zip [0..<length kss] kss)
        = map (\<lambda>(j, ks). map (\<lambda>k. Some (length (concat (take j kss)) + index_of k ks)) ks)
            (zip [0..<length kss] kss)"
      by (rule map_cong [OF refl]) (auto simp: mt fk dest: set_zip_rightD)
    then show ?thesis by (simp only: distinct_rows_handles [OF d])
  qed
  have r: "map (\<lambda>j. (fst (cells ! j) \<or> kss ! j \<noteq> [],
              set_slot (snd (cells ! j)) (name f)
                (MapContainer (zip (first_keys [] (kss ! j))
                   (map snd (take (length (first_keys [] (kss ! j)))
                      (drop (length (concat (map (first_keys []) (take j kss)))) vals)))))))
             [0..<length kss]
      = map (\<lambda>j. (fst (cells ! j) \<or> kss ! j \<noteq> [],
              set_slot (snd (cells ! j)) (name f)
                (MapContainer (take (length (kss ! j)) (drop (length (concat (take j kss)))
                   (zip (concat kss) (map snd vals)))))))
             [0..<length kss]" for vals
  proof (rule map_cong [OF refl])
    fix j assume "j \<in> set [0..<length kss]"
    then have j: "j < length kss" by simp
    then have "first_keys [] (kss ! j) = kss ! j" by (intro fk) simp
    with zip_row_span [OF j, of vals]
    show "(fst (cells ! j) \<or> kss ! j \<noteq> [],
              set_slot (snd (cells ! j)) (name f)
                (MapContainer (zip (first_keys [] (kss ! j))
                   (map snd (take (length (first_keys [] (kss ! j)))
                      (drop (length (concat (map (first_keys []) (take j kss)))) vals))))))
      = (fst (cells ! j) \<or> kss ! j \<noteq> [],
              set_slot (snd (cells ! j)) (name f)
                (MapContainer (take (length (kss ! j)) (drop (length (concat (take j kss)))
                   (zip (concat kss) (map snd vals))))))"
      by (simp add: mt)
  qed
  show "extract_map_field
         (MapArray (map (\<lambda>j. int (length (concat (take j kss)))) [0..<Suc (length kss)]) valid
            (Array kty (concat kss)) items)
         f (map Some [0..<length kss]) cells
       = and_then
           (extract_array_messages items vd (map Some [0..<length (concat kss)])
              (replicate (length (concat kss)) (False, concrete_class vd)))
           (\<lambda>vals. Inr (map (\<lambda>j. (fst (cells ! j) \<or> kss ! j \<noteq> [],
              set_slot (snd (cells ! j)) (name f)
                (MapContainer (take (length (kss ! j)) (drop (length (concat (take j kss)))
                   (zip (concat kss) (map snd vals)))))))
             [0..<length kss]))"
    unfolding gen h m r ..
qed

theorem map_values_follow_keys_witness:
  "extract_map_field
     (MapArray [0, 1, 3] [True, True] (Array pa_string [PyStr ''a'', PyStr ''b'', PyStr ''c''])
        (StructArray [pa_field ''x'' pa_int32 False] [Array pa_int32 [PyInt 5, PyInt 6, PyInt 7]]
           [True, True, True]))
     (FieldDescriptor ''m'' TYPE_MESSAGE LABEL_REPEATED (Some Example_StrInnerEntry) None)
     (map Some [0..<2]) (replicate 2 (False, concrete_class inner_map_message_type))
   = Inr [(True, Message [(''m'', MapContainer [(PyStr ''a'', example_inner 5 [])])]),
          (True, Message [(''m'', MapContainer [(PyStr ''b'', example_inner 6 []),
                                                (PyStr ''c'', example_inner 7 [])])])]
   \<and> extract_map_field
     (MapArray [0, 2] [True] (Array pa_string [PyStr ''a'', PyStr ''a''])
        (StructArray [pa_field ''x'' pa_int32 False] [Array pa_int32 [PyInt 5, PyInt 6]]
           [True, True]))
     (FieldDescriptor ''m'' TYPE_MESSAGE LABEL_REPEATED (Some Example_StrInnerEntry) None)
     (map Some [0..<1]) (replicate 1 (False, concrete_class inner_map_message_type))
   = Inr [(True, Message [(''m'', MapContainer [(PyStr ''a'', example_inner 6 [])])])]
   \<and> record_batch_to_messages
        (RecordBatch [pa_field ''m'' (pa_map pa_string (pa_struct [pa_field ''x'' pa_int32 False])) True]
           [MapArray [0, 1, 3] [True, True]
              (Array pa_string [PyStr ''a'', PyStr ''b'', PyStr ''c''])
              (StructArray [pa_field ''x'' pa_int32 False]
                 [Array pa_int32 [PyInt 5, PyInt 6, PyInt 7]] [True, True, True])] 2)
        inner_map_message_type
      = Inr [Message [(''m'', MapContainer [(PyStr ''a'', example_inner 5 [])])],
             Message [(''m'', MapContainer [(PyStr ''b'', example_inner 6 []),
                                            (PyStr ''c'', example_inner 7 [])])]]"
proof -
  let ?vt = "FieldDescriptor ''value'' TYPE_MESSAGE LABEL_OPTIONAL (Some Example_Inner) None"
  let ?kf = "scalar_field ''key'' TYPE_STRING"
  let ?f = "FieldDescriptor ''m'' TYPE_MESSAGE LABEL_REPEATED (Some Example_StrInnerEntry) None"
  let ?kss = "[[PyStr ''a''], [PyStr ''b'', PyStr ''c'']]"
  let ?items = "StructArray [pa_field ''x'' pa_int32 False]
      [Array pa_int32 [PyInt 5, PyInt 6, PyInt 7]] [True, True, True]"
  let ?cells = "replicate 2 (False, concrete_class inner_map_message_type)"
  let ?kss1 = "[[PyStr ''a'', PyStr ''a'']]"
  let ?items1 = "StructArray [pa_field ''x'' pa_int32 False]
      [Array pa_int32 [PyInt 5, PyInt 6]] [True, True]"
  let ?cells1 = "replicate 1 (False, concrete_class inner_map_message_type)"
  have f: "message_type ?f = Some Example_StrInnerEntry"
    "fields_by_name Example_StrInnerEntry ''key'' = Inr ?kf"
    "fields_by_name Example_StrInnerEntry ''value'' = Inr ?vt"
    "is_custom_field ?vt"
    "message_type ?vt = Some Example_Inner"
    "ftype ?kf \<noteq> TYPE_ENUM" "ftype ?kf \<noteq> TYPE_MESSAGE"
    by code_simp+
  have k: "list_all (\<lambda>k. check_value (ftype ?kf) (as_py (pa_string, k)) = Inr k) (concat ?kss)"
    "list_all (\<lambda>k. check_value (ftype ?kf) (as_py (pa_string, k)) = Inr k) (concat ?kss1)"
    by code_simp+
  have b: "list_all (\<lambda>c. get_slot (snd c) (name ?f) = Some (MapContainer [])) ?cells"
    "list_all (\<lambda>c. get_slot (snd c) (name ?f) = Some (MapContainer [])) ?cells1"
    by code_simp+
  have l: "length ?cells = length ?kss" "length ?cells1 = length ?kss1" by simp_all
  have d: "list_all distinct ?kss" by simp
  let ?final = "[(True, Message [(''m'', MapContainer [(PyStr ''a'', example_inner 5 [])])]),
          (True, Message [(''m'', MapContainer [(PyStr ''b'', example_inner 6 []),
                                                (PyStr ''c'', example_inner 7 [])])])]"
  let ?final1 = "[(True, Message [(''m'', MapContainer [(PyStr ''a'', example_inner 6 [])])])]"
  have a: "MapArray (map (\<lambda>j. int (length (concat (take j ?kss)))) [0..<Suc (length ?kss)])
        [True, True] (Array pa_string (concat ?kss)) ?items
      = MapArray [0, 1, 3] [True, True]
          (Array pa_string [PyStr ''a'', PyStr ''b'', PyStr ''c'']) ?items"
    "MapArray (map (\<lambda>j. int (length (concat (take j ?kss1)))) [0..<Suc (length ?kss1)])
        [True] (Array pa_string (concat ?kss1)) ?items1
      = MapArray [0, 2] [True] (Array pa_string [PyStr ''a'', PyStr ''a'']) ?items1"
    by (simp_all add: upt_rec)
  have h: "length ?kss = 2" "length ?kss1 = 1"
    by simp_all
  have t: "extract_map_field
         (MapArray (map (\<lambda>j. int (length (concat (take j ?kss)))) [0..<Suc (length ?kss)])
            [True, True] (Array pa_string (concat ?kss)) ?items)
         ?f (map Some [0..<length ?kss]) ?cells
       = and_then
           (extract_array_messages ?items Example_Inner (map Some [0..<length (concat ?kss)])
              (replicate (length (concat ?kss)) (False, concrete_class Example_Inner)))
           (\<lambda>vals. Inr (map (\<lambda>j. (fst (?cells ! j) \<or> ?kss ! j \<noteq> [],
              set_slot (snd (?cells ! j)) (name ?f)
                (MapContainer (take (length (?kss ! j)) (drop (length (concat (take j ?kss)))
                   (zip (concat ?kss) (map snd vals)))))))
             [0..<length ?kss]))"
    by (rule map_values_follow_keys [OF f(1,2,3,4,5,6,7) k(1) l(1) b(1),
      THEN conjunct1, rule_format, OF d])
  have r: "and_then
           (extract_array_messages ?items Example_Inner (map Some [0..<length (concat ?kss)])
              (replicate (length (concat ?kss)) (False, concrete_class Example_Inner)))
           (\<lambda>vals. Inr (map (\<lambda>j. (fst (?cells ! j) \<or> ?kss ! j \<noteq> [],
              set_slot (snd (?cells ! j)) (name ?f)
                (MapContainer (take (length (?kss ! j)) (drop (length (concat (take j ?kss)))
                   (zip (concat ?kss) (map snd vals)))))))
             [0..<length ?kss]))
      = Inr ?final"
    by code_simp
  have e: "extract_map_field
     (MapArray [0, 1, 3] [True, True] (Array pa_string [PyStr ''a'', PyStr ''b'', PyStr ''c''])
        ?items) ?f (map Some [0..<2]) ?cells = Inr ?final"
    using trans [OF t r] unfolding a unfolding h .
  have t1: "extract_map_field
         (MapArray (map (\<lambda>j. int (length (concat (take j ?kss1)))) [0..<Suc (length ?kss1)])
            [True] (Array pa_string (concat ?kss1)) ?items1)
         ?f (map Some [0..<length ?kss1]) ?cells1
       = and_then
           (extract_array_messages ?items1 Example_Inner
              (concat (map (\<lambda>(j, ks). map (\<lambda>k. Some
                   (length (concat (map (first_keys []) (take j ?kss1)))
                    + index_of k (first_keys [] ks))) ks) (zip [0..<length ?kss1] ?kss1)))
              (replicate (length (concat (map (first_keys []) ?kss1)))
                 (False, concrete_class Example_Inner)))
           (\<lambda>vals. Inr (map (\<lambda>j. (fst (?cells1 ! j) \<or> ?kss1 ! j \<noteq> [],
              set_slot (snd (?cells1 ! j)) (name ?f)
                (MapContainer (zip (first_keys [] (?kss1 ! j))
                   (map snd (take (length (first_keys [] (?kss1 ! j)))
                      (drop (length (concat (map (first_keys []) (take j ?kss1)))) vals)))))))
             [0..<length ?kss1]))"
    by (rule map_values_follow_keys [OF f(1,2,3,4,5,6,7) k(2) l(2) b(2), THEN conjunct2])
  have r1: "and_then
           (extract_array_messages ?items1 Example_Inner
              (concat (map (\<lambda>(j, ks). map (\<lambda>k. Some
                   (length (concat (map (first_keys []) (take j ?kss1)))
                    + index_of k (first_keys [] ks))) ks) (zip [0..<length ?kss1] ?kss1)))
              (replicate (length (concat (map (first_keys []) ?kss1)))
                 (False, concrete_class Example_Inner)))
           (\<lambda>vals. Inr (map (\<lambda>j. (fst (?cells1 ! j) \<or> ?kss1 ! j \<noteq> [],
              set_slot (snd (?cells1 ! j)) (name ?f)
                (MapContainer (zip (first_keys [] (?kss1 ! j))
                   (map snd (take (length (first_keys [] (?kss1 ! j)))
                      (drop (length (concat (map (first_keys []) (take j ?kss1)))) vals)))))))
             [0..<length ?kss1]))
      = Inr ?final1"
    by code_simp
  have e1: "extract_map_field
     (MapArray [0, 2] [True] (Array pa_string [PyStr ''a'', PyStr ''a'']) ?items1)
     ?f (map Some [0..<1]) ?cells1 = Inr ?final1"
    using trans [OF t1 r1] unfolding a unfolding h .
  have rb: "record_batch_to_messages
        (RecordBatch [pa_field ''m'' (pa_map pa_string (pa_struct [pa_field ''x'' pa_int32 False])) True]
           [MapArray [0, 1, 3] [True, True]
              (Array pa_string [PyStr ''a'', PyStr ''b'', PyStr ''c''])
              ?items] 2)
        inner_map_message_type
      = Inr [Message [(''m'', MapContainer [(PyStr ''a'', example_inner 5 [])])],
             Message [(''m'', MapContainer [(PyStr ''b'', example_inner 6 []),
                                            (PyStr ''c'', example_inner 7 [])])]]"
    by code_simp
  from e e1 rb show ?thesis by blast
qed

end
